theory Spec2Isabelle
  imports
    Main
    "HOL-Library.Sublist"
    "HOL-Library.AList"
    "HOL-Library.Char_ord"
    "HOL-Library.List_Lexorder"
    "HOL-Library.Word"
begin

unbundle bit_operations_syntax

section \<open>Go strings and path functions used by app.go\<close>

text \<open>
  Go strings are byte sequences; they are modelled as \<^typ>\<open>string\<close> (a list of
  8-bit characters).  The functions below are the ones of the Go standard library
  that \<^verbatim>\<open>app.go\<close> calls (packages \<^verbatim>\<open>strings\<close> and \<^verbatim>\<open>path/filepath\<close>), in
  their Unix form: the path separator is the slash and there are no volume names.
\<close>

text \<open>
  \<^verbatim>\<open>strings.Split(s, sep)\<close>: the loop of \<^verbatim>\<open>genSplit\<close> looks for the next
  occurrence of \<^verbatim>\<open>sep\<close>, emits the piece before it and goes on behind it; the
  rest of the input is the last piece.  The second argument is the piece read so
  far, reversed.  (An empty separator makes Go explode the string into UTF-8
  sequences; app.go never passes one, and here it yields the whole string.)
\<close>

fun genSplit :: "string \<Rightarrow> string \<Rightarrow> string \<Rightarrow> string list" where
  "genSplit sep piece [] = [rev piece]"
| "genSplit sep piece (c # cs) =
     (if sep \<noteq> [] \<and> prefix sep (c # cs)
      then rev piece # genSplit sep [] (drop (length sep) (c # cs))
      else genSplit sep (c # piece) cs)"

definition strings_Split :: "string \<Rightarrow> string \<Rightarrow> string list" where
  "strings_Split s sep = genSplit sep [] s"

text \<open>\<^verbatim>\<open>strings.Join(elems, sep)\<close>\<close>

fun strings_Join :: "string list \<Rightarrow> string \<Rightarrow> string" where
  "strings_Join [] sep = []"
| "strings_Join [e] sep = e"
| "strings_Join (e # e' # es) sep = e @ sep @ strings_Join (e' # es) sep"

text \<open>
  \<^verbatim>\<open>strings.ToLower\<close> on bytes: the ASCII capitals \<^verbatim>\<open>A\<close>..\<^verbatim>\<open>Z\<close> (65..90) move
  to \<^verbatim>\<open>a\<close>..\<^verbatim>\<open>z\<close>, every other byte stays.  (Go also lowers capitals outside
  ASCII; none of them lowers to a byte of \<^verbatim>\<open>.m4v\<close>.)
\<close>

definition toLower_byte :: "char \<Rightarrow> char" where
  "toLower_byte c =
     (if 65 \<le> (of_char c :: nat) \<and> (of_char c :: nat) \<le> 90
      then char_of ((of_char c :: nat) + 32) else c)"

definition strings_ToLower :: "string \<Rightarrow> string" where
  "strings_ToLower s = map toLower_byte s"

text \<open>\<^verbatim>\<open>strings.HasSuffix(s, suffix)\<close>:
  \<^verbatim>\<open>len(s) >= len(suffix) && s[len(s)-len(suffix):] == suffix\<close>\<close>

definition strings_HasSuffix :: "string \<Rightarrow> string \<Rightarrow> bool" where
  "strings_HasSuffix s suf =
     (length suf \<le> length s \<and> drop (length s - length suf) s = suf)"

text \<open>\<^verbatim>\<open>strings.TrimSuffix(s, suffix)\<close>\<close>

definition strings_TrimSuffix :: "string \<Rightarrow> string \<Rightarrow> string" where
  "strings_TrimSuffix s suf =
     (if strings_HasSuffix s suf then take (length s - length suf) s else s)"

definition IsPathSeparator :: "char \<Rightarrow> bool" where
  "IsPathSeparator c = (c = CHR ''/'')"

text \<open>
  \<^verbatim>\<open>filepath.Base(path)\<close>: the empty path gives a dot; trailing separators
  are stripped; what follows the last separator is the result, and a path of
  separators only gives one separator.
\<close>

definition filepath_Base :: "string \<Rightarrow> string" where
  "filepath_Base path =
     (if path = [] then ''.''
      else
        let path1 = rev (dropWhile IsPathSeparator (rev path));
            path2 = rev (takeWhile (\<lambda>c. \<not> IsPathSeparator c) (rev path1))
        in if path2 = [] then ''/'' else path2)"

text \<open>
  \<^verbatim>\<open>filepath.Ext(path)\<close>: the suffix that starts at the last dot of the last
  element of the path, empty when that element has no dot.
\<close>

definition filepath_Ext :: "string \<Rightarrow> string" where
  "filepath_Ext path =
     (let elem = takeWhile (\<lambda>c. \<not> IsPathSeparator c) (rev path)
      in if CHR ''.'' \<in> set elem
         then CHR ''.'' # rev (takeWhile (\<lambda>c. c \<noteq> CHR ''.'') elem)
         else [])"

text \<open>
  \<^verbatim>\<open>filepath.Clean(path)\<close>, element by element.  Go scans the bytes with a write
  buffer; on the elements between separators that scan does this: an empty element
  and a dot are dropped; two dots remove the element written last, unless there is
  none to remove (then they are dropped in a rooted path and kept in a relative
  one, and kept dot-dots are never removed); any other element is written.  The
  second argument is the output so far, last element first.
\<close>

fun clean_elems :: "bool \<Rightarrow> string list \<Rightarrow> string list \<Rightarrow> string list" where
  "clean_elems rooted out [] = rev out"
| "clean_elems rooted out (e # es) =
     (if e = [] \<or> e = ''.'' then clean_elems rooted out es
      else if e = ''..'' then
        (if out \<noteq> [] \<and> hd out \<noteq> ''..'' then clean_elems rooted (tl out) es
         else if \<not> rooted then clean_elems rooted (''..'' # out) es
         else clean_elems rooted out es)
      else clean_elems rooted (e # out) es)"

definition filepath_Clean :: "string \<Rightarrow> string" where
  "filepath_Clean path =
     (if path = [] then ''.''
      else
        let rooted = IsPathSeparator (hd path);
            out = (if rooted then ''/'' else []) @
                  strings_Join (clean_elems rooted [] (strings_Split path ''/'')) ''/''
        in if out = [] then ''.'' else out)"

text \<open>
  \<^verbatim>\<open>filepath.Join(elem...)\<close>: leading empty elements are skipped, the rest is
  joined with the separator and cleaned; no non-empty element gives the empty
  string.
\<close>

fun filepath_Join :: "string list \<Rightarrow> string" where
  "filepath_Join [] = []"
| "filepath_Join (e # es) =
     (if e \<noteq> [] then filepath_Clean (strings_Join (e # es) ''/'')
      else filepath_Join es)"

text \<open>\<^verbatim>\<open>filepath.IsAbs(path)\<close>: the path starts with the separator.\<close>

definition filepath_IsAbs :: "string \<Rightarrow> bool" where
  "filepath_IsAbs path = (path \<noteq> [] \<and> IsPathSeparator (hd path))"

section \<open>The destination folder of MoveVideos\<close>

text \<open>
  app.go, line 96:
  \<^verbatim>\<open>outputDir := strings.Join(strings.Split(firstFilePath, "."), "_")\<close>
\<close>

definition outputDir_of :: "string \<Rightarrow> string" where
  "outputDir_of firstFilePath = strings_Join (strings_Split firstFilePath ''.'') ''_''"

text \<open>
  The rule as the specification words it: the extension is stripped from the first
  path and every path separator becomes an underscore.
\<close>

definition outputDir_claimed :: "string \<Rightarrow> string" where
  "outputDir_claimed firstFilePath =
     map (\<lambda>c. if IsPathSeparator c then CHR ''_'' else c)
       (strings_TrimSuffix firstFilePath (filepath_Ext firstFilePath))"

section \<open>The file system\<close>

text \<open>
  The operating system is not part of the repository; app.go reaches it through
  \<^verbatim>\<open>os.Mkdir\<close>, \<^verbatim>\<open>os.Rename\<close>, \<^verbatim>\<open>os.Stat\<close> and \<^verbatim>\<open>filepath.Walk\<close>.
  The model is a directory tree on one volume, without symbolic or hard links.  A
  file carries a number standing for its content; a directory carries its read,
  write and search permissions and its entries.  Looking a name up in a directory
  takes the first entry of that name.
\<close>

datatype errno = ENOENT | ENOTDIR | EEXIST | EACCES | EISDIR | EINVAL | ENOTEMPTY | EBUSY

datatype node = File nat | Dir bool bool bool "(string \<times> node) list"

text \<open>What \<^verbatim>\<open>stat\<close> sees of a node.\<close>

datatype kind = KFile nat | KDir bool bool bool

fun kind_of :: "node \<Rightarrow> kind" where
  "kind_of (File c) = KFile c"
| "kind_of (Dir r w x es) = KDir r w x"

fun child :: "node \<Rightarrow> string \<Rightarrow> node option" where
  "child (File c) k = None"
| "child (Dir r w x es) k = map_of es k"

text \<open>A location is the list of names that leads from the root to a node.\<close>

fun lookup :: "node \<Rightarrow> string list \<Rightarrow> node option" where
  "lookup n [] = Some n"
| "lookup n (k # ks) = (case child n k of None \<Rightarrow> None | Some m \<Rightarrow> lookup m ks)"

definition stat_at :: "node \<Rightarrow> string list \<Rightarrow> kind option" where
  "stat_at root loc = map_option kind_of (lookup root loc)"

text \<open>
  \<open>put loc v root\<close> stores the subtree \<open>v\<close> at a location below the root, or
  removes what is there when \<open>v\<close> is \<open>None\<close>.  The directory that holds the
  location has to exist; otherwise nothing changes.
\<close>

fun put :: "string list \<Rightarrow> node option \<Rightarrow> node \<Rightarrow> node" where
  "put [] v n = n"
| "put (k # ks) v (File c) = File c"
| "put [k] v (Dir r w x es) =
     Dir r w x (case v of None \<Rightarrow> AList.delete k es | Some m \<Rightarrow> AList.update k m es)"
| "put (k # k' # ks) v (Dir r w x es) =
     (case map_of es k of
        None \<Rightarrow> Dir r w x es
      | Some m \<Rightarrow> Dir r w x (AList.update k (put (k' # ks) v m) es))"

text \<open>
  Path resolution as the kernel does it, one element after the other: the
  directory reached so far has to exist, be a directory and be searchable; an empty
  element and a dot stay there, two dots go to the parent (the root is its own
  parent), a name goes down.  Whether the last name exists is left to the caller.
  A relative path is resolved from the root (the working directory is the root).
\<close>

fun namei :: "node \<Rightarrow> string list \<Rightarrow> string list \<Rightarrow> errno + string list" where
  "namei root cur [] = Inr cur"
| "namei root cur (e # es) =
     (case stat_at root cur of
        None \<Rightarrow> Inl ENOENT
      | Some (KFile c) \<Rightarrow> Inl ENOTDIR
      | Some (KDir r w x) \<Rightarrow>
          if \<not> x then Inl EACCES
          else namei root
                 (if e = [] \<or> e = ''.'' then cur
                  else if e = ''..'' then butlast cur
                  else cur @ [e]) es)"

definition resolve :: "node \<Rightarrow> string \<Rightarrow> errno + string list" where
  "resolve root path =
     (if path = [] then Inl ENOENT else namei root [] (strings_Split path ''/''))"

text \<open>The elements of a path without the empty ones that trailing slashes leave.\<close>

definition elems_stripped :: "string \<Rightarrow> string list" where
  "elems_stripped path = rev (dropWhile (\<lambda>e. e = []) (rev (strings_Split path ''/'')))"

definition last_elem_dots :: "string \<Rightarrow> bool" where
  "last_elem_dots path =
     (let es = elems_stripped path in es \<noteq> [] \<and> (last es = ''.'' \<or> last es = ''..''))"

definition dir_writable :: "node \<Rightarrow> string list \<Rightarrow> bool" where
  "dir_writable root loc = (case stat_at root loc of Some (KDir r w x) \<Rightarrow> w | _ \<Rightarrow> False)"

text \<open>
  \<^verbatim>\<open>os.Stat\<close> (and \<^verbatim>\<open>os.Lstat\<close>, the same without links): the kind of the
  node a path leads to.
\<close>

definition os_Stat :: "node \<Rightarrow> string \<Rightarrow> errno + kind" where
  "os_Stat root path =
     (case resolve root path of
        Inl e \<Rightarrow> Inl e
      | Inr loc \<Rightarrow> (case stat_at root loc of None \<Rightarrow> Inl ENOENT | Some k \<Rightarrow> Inr k))"

text \<open>\<^verbatim>\<open>os.IsNotExist(err)\<close> for the error of a system call; a nil error is not one.\<close>

definition IsNotExist :: "errno option \<Rightarrow> bool" where
  "IsNotExist err = (err = Some ENOENT)"

text \<open>
  \<^verbatim>\<open>os.Mkdir(path, os.ModePerm)\<close>, the system call \<^verbatim>\<open>mkdir\<close>: one directory is
  made.  Trailing slashes are ignored; every directory on the way has to exist; a
  path that exists already, as whatever, is refused with \<^verbatim>\<open>EEXIST\<close>; the parent
  has to be writable.
\<close>

definition os_Mkdir :: "node \<Rightarrow> string \<Rightarrow> errno + node" where
  "os_Mkdir root path =
     (if path = [] then Inl ENOENT
      else case namei root [] (elems_stripped path) of
        Inl e \<Rightarrow> Inl e
      | Inr loc \<Rightarrow>
          (case stat_at root loc of
             Some k \<Rightarrow> Inl EEXIST
           | None \<Rightarrow>
               if dir_writable root (butlast loc)
               then Inr (put loc (Some (Dir True True True [])) root)
               else Inl EACCES))"

text \<open>
  \<^verbatim>\<open>os.Rename(oldpath, newpath)\<close>, the system call \<^verbatim>\<open>rename\<close>.  The old path has
  to exist; neither path may end in a dot or two dots or be the root; both parents
  have to be writable; renaming a node to itself does nothing; a file replaces a
  file but not a directory; a directory replaces an empty directory only and
  cannot move below itself.  The node moves with everything below it.
\<close>

definition os_Rename :: "node \<Rightarrow> string \<Rightarrow> string \<Rightarrow> errno + node" where
  "os_Rename root oldpath newpath =
     (case resolve root oldpath of
        Inl e \<Rightarrow> Inl e
      | Inr old \<Rightarrow>
     (case lookup root old of
        None \<Rightarrow> Inl ENOENT
      | Some n \<Rightarrow>
     (case resolve root newpath of
        Inl e \<Rightarrow> Inl e
      | Inr new \<Rightarrow>
          if last_elem_dots oldpath \<or> last_elem_dots newpath \<or> old = [] \<or> new = []
          then Inl EBUSY
          else if \<not> dir_writable root (butlast old) \<or> \<not> dir_writable root (butlast new)
          then Inl EACCES
          else if old = new then Inr root
          else
            (case n of
               File c \<Rightarrow>
                 (case stat_at root new of
                    Some (KDir r w x) \<Rightarrow> Inl EISDIR
                  | _ \<Rightarrow> Inr (put new (Some n) (put old None root)))
             | Dir r w x es \<Rightarrow>
                 if prefix old new then Inl EINVAL
                 else
                   (case lookup root new of
                      None \<Rightarrow> Inr (put new (Some n) (put old None root))
                    | Some (File c) \<Rightarrow> Inl ENOTDIR
                    | Some (Dir r' w' x' es') \<Rightarrow>
                        if es' \<noteq> [] then Inl ENOTEMPTY
                        else Inr (put new (Some n) (put old None root)))))))"

section \<open>MoveVideos\<close>

text \<open>
  The errors MoveVideos returns, by the data their message is formatted from, and
  the events it emits through \<^verbatim>\<open>runtime.EventsEmit\<close> (the \<^verbatim>\<open>move-status\<close>,
  \<^verbatim>\<open>move-error\<close> and \<^verbatim>\<open>move-complete\<close> events), likewise.  Log lines are left
  out.
\<close>

datatype error =
    NoVideoFiles
  | MkdirFailed string errno
  | SourceNotFound string
  | MoveFailed string string errno

datatype event =
    Status_Received nat
  | Status_Target string
  | Status_DirCreated
  | Status_Starting
  | Status_Moving string
  | MoveError error
  | MoveComplete nat string

record world =
  fs :: node
  events :: "event list"

definition emit :: "event \<Rightarrow> world \<Rightarrow> world" where
  "emit e w = w\<lparr>events := events w @ [e]\<rparr>"

text \<open>The loop over the request, app.go lines 114 to 141.\<close>

fun moveEach :: "string \<Rightarrow> string list \<Rightarrow> nat \<Rightarrow> world \<Rightarrow> (error + nat) \<times> world" where
  "moveEach outputDir [] movedCount w = (Inr movedCount, w)"
| "moveEach outputDir (originalPath # rest) movedCount w =
     (let fileName = filepath_Base originalPath;
          newPath = filepath_Join [outputDir, fileName];
          w1 = emit (Status_Moving fileName) w
      in case os_Rename (fs w1) originalPath newPath of
           Inl err \<Rightarrow>
             (let statErr = (case os_Stat (fs w1) originalPath of
                               Inl e \<Rightarrow> Some e | Inr k \<Rightarrow> None);
                  failure = (if IsNotExist statErr then SourceNotFound fileName
                             else MoveFailed fileName newPath err)
              in (Inl failure, emit (MoveError failure) w1))
         | Inr fs' \<Rightarrow> moveEach outputDir rest (movedCount + 1) (w1\<lparr>fs := fs'\<rparr>))"

definition MoveVideos :: "string list \<Rightarrow> world \<Rightarrow> error option \<times> world" where
  "MoveVideos absoluteFilePaths w =
     (let w1 = emit (Status_Received (length absoluteFilePaths)) w
      in case absoluteFilePaths of
           [] \<Rightarrow> (Some NoVideoFiles, emit (MoveError NoVideoFiles) w1)
         | firstFilePath # others \<Rightarrow>
             (let outputDir = outputDir_of firstFilePath;
                  w2 = emit (Status_Target outputDir) w1
              in case os_Mkdir (fs w2) outputDir of
                   Inl err \<Rightarrow>
                     (Some (MkdirFailed outputDir err),
                      emit (MoveError (MkdirFailed outputDir err)) w2)
                 | Inr fs' \<Rightarrow>
                     (let w3 = emit Status_Starting
                                 (emit Status_DirCreated (w2\<lparr>fs := fs'\<rparr>))
                      in case moveEach outputDir absoluteFilePaths 0 w3 of
                           (Inl failure, w4) \<Rightarrow> (Some failure, w4)
                         | (Inr movedCount, w4) \<Rightarrow>
                             (None, emit (MoveComplete movedCount outputDir) w4))))"

text \<open>
  The file system after the given files have been moved, one after the other, to
  the places MoveVideos computes for them (app.go lines 115, 116 and 122); \<open>None\<close>
  when one of the renames is refused.
\<close>

fun moved :: "string \<Rightarrow> string list \<Rightarrow> node \<Rightarrow> node option" where
  "moved outputDir [] root = Some root"
| "moved outputDir (p # ps) root =
     (case os_Rename root p (filepath_Join [outputDir, filepath_Base p]) of
        Inl e \<Rightarrow> None
      | Inr root' \<Rightarrow> moved outputDir ps root')"

text \<open>
  The request of the five-file scenario: the directory \<^verbatim>\<open>/v\<close> holds the files a, b,
  d and e; c has been deleted before the call.
\<close>

definition fs5 :: node where
  "fs5 = Dir True True True [(''v'', Dir True True True
     [(''a.m4v'', File 1), (''b.m4v'', File 2), (''d.m4v'', File 4), (''e.m4v'', File 5)])]"

definition fs5_made :: node where
  "fs5_made = Dir True True True [(''v'', Dir True True True
     [(''a.m4v'', File 1), (''b.m4v'', File 2), (''d.m4v'', File 4), (''e.m4v'', File 5),
      (''a_m4v'', Dir True True True [])])]"

definition fs5_halted :: node where
  "fs5_halted = Dir True True True [(''v'', Dir True True True
     [(''d.m4v'', File 4), (''e.m4v'', File 5),
      (''a_m4v'', Dir True True True [(''a.m4v'', File 1), (''b.m4v'', File 2)])])]"

text \<open>A directory whose name has a dot, with one file in it.\<close>

definition fs_dotted :: node where
  "fs_dotted = Dir True True True [(''x.y'', Dir True True True [(''a.m4v'', File 1)])]"

section \<open>SelectDirectory\<close>

text \<open>
  What the callback of \<^verbatim>\<open>filepath.Walk\<close> is called with: a visited entry with
  its \<^verbatim>\<open>FileInfo\<close> and a nil error, or an error, with the \<^verbatim>\<open>FileInfo\<close> when
  the directory itself could be examined but not listed, and without it when
  \<^verbatim>\<open>lstat\<close> failed.  Of a \<^verbatim>\<open>FileInfo\<close> app.go reads the name and whether it
  is a directory.
\<close>

datatype fileinfo = FileInfo (Name: string) (IsDir: bool)

datatype visit = Entry fileinfo | Failed "fileinfo option" errno

text \<open>
  \<^verbatim>\<open>filepath.walk\<close> of the Go library: a file is handed to the callback.  A
  directory is listed first (that needs the read permission) and handed to the
  callback together with the error of the listing; after an error the walk returns
  what the callback returns.  Then the names, sorted, are visited one by one:
  \<^verbatim>\<open>lstat\<close> on the joined path (that needs the search permission of the
  directory) and the walk below; the first error ends the walk.  The callback of
  app.go never asks to skip a directory, so that case of the library is left out.
\<close>

function walk :: "(string \<Rightarrow> visit \<Rightarrow> 's \<Rightarrow> errno + 's) \<Rightarrow> string \<Rightarrow> string \<Rightarrow> node \<Rightarrow> 's \<Rightarrow> errno + 's"
  and walk_names :: "(string \<Rightarrow> visit \<Rightarrow> 's \<Rightarrow> errno + 's) \<Rightarrow> string \<Rightarrow> bool \<Rightarrow>
      (string \<times> node) list \<Rightarrow> string list \<Rightarrow> 's \<Rightarrow> errno + 's"
where
  "walk fn path name (File c) s = fn path (Entry (FileInfo name False)) s"
| "walk fn path name (Dir r w x es) s =
     (if \<not> r then fn path (Failed (Some (FileInfo name True)) EACCES) s
      else case fn path (Entry (FileInfo name True)) s of
             Inl e \<Rightarrow> Inl e
           | Inr s' \<Rightarrow> walk_names fn path x es (sort (remdups (map fst es))) s')"
| "walk_names fn path x es [] s = Inr s"
| "walk_names fn path x es (n # ns) s =
     (let filename = filepath_Join [path, n]
      in if \<not> x then
           (case fn filename (Failed None EACCES) s of
              Inl e \<Rightarrow> Inl e
            | Inr s' \<Rightarrow> walk_names fn path x es ns s')
         else
           (case map_of es n of
              None \<Rightarrow>
                (case fn filename (Failed None ENOENT) s of
                   Inl e \<Rightarrow> Inl e
                 | Inr s' \<Rightarrow> walk_names fn path x es ns s')
            | Some c \<Rightarrow>
                (case walk fn filename n c s of
                   Inl e \<Rightarrow> Inl e
                 | Inr s' \<Rightarrow> walk_names fn path x es ns s')))"
  by pat_completeness auto
termination
proof -
  have sz: "map_of es n = Some c \<Longrightarrow> size c < size_list (size_prod (\<lambda>_. 0) size) es"
    for es :: "(string \<times> node) list" and n c
    by (induction es) (auto split: if_splits)
  show ?thesis
    by (relation "inv_image (less_than <*lex*> less_than)
          (\<lambda>v. case v of
             Inl (fn, path, name, n, s) \<Rightarrow> (size n, 0)
           | Inr (fn, path, x, es, ns, s) \<Rightarrow>
               (size_list (size_prod (\<lambda>_. 0) size) es, Suc (length ns)))")
       (auto dest: sz)
qed

text \<open>The callback of SelectDirectory, app.go lines 53 to 62.\<close>

definition scanFn :: "string \<Rightarrow> visit \<Rightarrow> string list \<Rightarrow> errno + string list" where
  "scanFn path v videoFiles =
     (case v of
        Failed info err \<Rightarrow> Inl err
      | Entry info \<Rightarrow>
          if \<not> IsDir info \<and> strings_HasSuffix (strings_ToLower (Name info)) ''.m4v''
          then Inr (videoFiles @ [path])
          else Inr videoFiles)"

text \<open>\<^verbatim>\<open>filepath.Walk(root, fn)\<close>: \<^verbatim>\<open>lstat\<close> on the root, then the walk.\<close>

definition filepath_Walk ::
  "node \<Rightarrow> string \<Rightarrow> (string \<Rightarrow> visit \<Rightarrow> 's \<Rightarrow> errno + 's) \<Rightarrow> 's \<Rightarrow> errno + 's" where
  "filepath_Walk root_fs root fn s =
     (case resolve root_fs root of
        Inl e \<Rightarrow> fn root (Failed None e) s
      | Inr loc \<Rightarrow>
          (case lookup root_fs loc of
             None \<Rightarrow> fn root (Failed None ENOENT) s
           | Some n \<Rightarrow> walk fn root (filepath_Base root) n s))"

text \<open>
  SelectDirectory, given what the directory dialog returns (an error or the chosen
  path, empty when the user cancels).  The result is the pair Go returns: the
  slice, nil when it is empty, and the error.
\<close>

datatype go_error = DialogError string | ScanError errno

definition SelectDirectory :: "string + string \<Rightarrow> node \<Rightarrow> string list \<times> go_error option" where
  "SelectDirectory dialog root_fs =
     (case dialog of
        Inl err \<Rightarrow> ([], Some (DialogError err))
      | Inr selectedDir \<Rightarrow>
          if selectedDir = [] then ([], None)
          else
            (case filepath_Walk root_fs selectedDir scanFn [] of
               Inl err \<Rightarrow> ([], Some (ScanError err))
             | Inr videoFiles \<Rightarrow> (videoFiles, None)))"

text \<open>
  For the statements about the scan: the path the walk builds for the node at a
  location below the walked root, the name of that node, the test of the extension
  as the specification words it (the extension, lowered, is in the allow-list,
  which holds \<^verbatim>\<open>.m4v\<close> only), and a tree that holds a directory without read
  permission.
\<close>

definition path_below :: "string \<Rightarrow> string list \<Rightarrow> string" where
  "path_below root loc = foldl (\<lambda>p n. filepath_Join [p, n]) root loc"

definition name_at :: "string \<Rightarrow> string list \<Rightarrow> string" where
  "name_at root loc = (if loc = [] then filepath_Base root else last loc)"

definition is_video :: "string \<Rightarrow> bool" where
  "is_video name = (strings_ToLower (filepath_Ext name) = ''.m4v'')"

definition unreadable :: "node \<Rightarrow> bool" where
  "unreadable n = (\<exists>loc w x. stat_at n loc = Some (KDir False w x))"

text \<open>
  The videos the walk finds at and below a node that it reaches under a given path
  and name, and those it finds under the listed names of a directory.
\<close>

definition found_below :: "string \<Rightarrow> string \<Rightarrow> node \<Rightarrow> string set" where
  "found_below path name n =
     {p. \<exists>L c. p = path_below path L \<and> lookup n L = Some (File c) \<and>
           is_video (if L = [] then name else last L)}"

definition found_in :: "string \<Rightarrow> (string \<times> node) list \<Rightarrow> string list \<Rightarrow> string set" where
  "found_in path es ns =
     (\<Union>k \<in> set ns. case map_of es k of None \<Rightarrow> {}
        | Some m \<Rightarrow> found_below (filepath_Join [path, k]) k m)"

text \<open>
  Every directory of a tree can be listed and searched; the matching files of the
  selected directory, by the paths the scan builds for them.
\<close>

definition accessible :: "node \<Rightarrow> bool" where
  "accessible n = (\<forall>loc r w x. stat_at n loc = Some (KDir r w x) \<longrightarrow> r \<and> x)"

definition videos_below :: "string \<Rightarrow> node \<Rightarrow> string set" where
  "videos_below root n =
     {p. \<exists>loc c. p = path_below root loc \<and> lookup n loc = Some (File c) \<and>
           is_video (name_at root loc)}"

text \<open>The same, checked entry by entry.\<close>

fun all_open :: "node \<Rightarrow> bool" where
  "all_open (File c) = True"
| "all_open (Dir r w x es) = (r \<and> x \<and> (\<forall>e \<in> set es. all_open (snd e)))"

text \<open>
  A directory with matching and other files, in two cases of the extension, and the
  same kind of directory with a subdirectory that cannot be read.
\<close>

definition videos_dir :: node where
  "videos_dir = Dir True True True
     [(''b.M4V'', File 1), (''a.m4v'', File 2), (''notes.txt'', File 3),
      (''sub'', Dir True True True [(''c.m4v'', File 4), (''d.mp4'', File 5)]),
      (''empty'', Dir True True True [(''readme'', File 6)])]"

definition videos_fs :: node where
  "videos_fs = Dir True True True [(''videos'', videos_dir)]"

definition locked_dir :: node where
  "locked_dir = Dir True True True
     [(''a.m4v'', File 1),
      (''sub'', Dir True True True [(''c.m4v'', File 2)]),
      (''z'', Dir False True True [(''e.m4v'', File 3)])]"

definition locked_fs :: node where
  "locked_fs = Dir True True True [(''videos'', locked_dir)]"

section \<open>GenerateThumbnail\<close>

text \<open>
  \<^verbatim>\<open>base64.StdEncoding.EncodeToString\<close>: three bytes make a 24-bit value that
  is written as four characters of the standard alphabet, six bits each; one or
  two bytes left over are written with padding.
\<close>

definition encodeStd :: string where
  "encodeStd = ''ABCDEFGHIJKLMNOPQRSTUVWXYZabcdefghijklmnopqrstuvwxyz0123456789+/''"

definition enc :: "32 word \<Rightarrow> nat \<Rightarrow> char" where
  "enc val shift = encodeStd ! unat (drop_bit shift val AND 63)"

fun EncodeToString :: "8 word list \<Rightarrow> string" where
  "EncodeToString (b0 # b1 # b2 # src) =
     (let val = push_bit 16 (ucast b0) OR push_bit 8 (ucast b1) OR ucast b2 :: 32 word
      in enc val 18 # enc val 12 # enc val 6 # enc val 0 # EncodeToString src)"
| "EncodeToString [b0, b1] =
     (let val = push_bit 16 (ucast b0) OR push_bit 8 (ucast b1) :: 32 word
      in [enc val 18, enc val 12, enc val 6, CHR ''=''])"
| "EncodeToString [b0] =
     (let val = push_bit 16 (ucast b0) :: 32 word
      in [enc val 18, enc val 12, CHR ''='', CHR ''=''])"
| "EncodeToString [] = []"

text \<open>
  What \<^verbatim>\<open>cmd.Run()\<close> reports of the external tool: the error it returns (none
  when the tool ran and exited with status zero; otherwise the tool could not be
  started, it exited with another status or was killed, or copying its output
  failed) and what the two buffers captured.  The tool itself is a parameter: a
  function from the command line to this report.
\<close>

datatype run_error = StartFailed | ExitError int | CopyFailed

record cmd_result =
  run_err :: "run_error option"
  outb :: "8 word list"
  errb :: string

text \<open>
  The two errors of GenerateThumbnail, by the data of their message: the first is
  formatted from the path, the error of the run and the captured standard error,
  the second from the path.
\<close>

datatype thumb_error =
    ExecutionFailed string run_error string
  | NoThumbnailData string

text \<open>The command line, app.go line 161.\<close>

definition ffmpeg_command :: "string \<Rightarrow> string list" where
  "ffmpeg_command videoPath =
     [''ffmpeg'', ''-i'', videoPath, ''-ss'', ''00:00:01'', ''-vframes'', ''1'',
      ''-f'', ''image2pipe'', ''-c:v'', ''mjpeg'', ''-'']"

text \<open>
  GenerateThumbnail returns the pair Go returns, the string and the error, and
  here also the list of the commands it has run.
\<close>

definition GenerateThumbnail ::
  "(string list \<Rightarrow> cmd_result) \<Rightarrow> string \<Rightarrow> (string \<times> thumb_error option) \<times> string list list" where
  "GenerateThumbnail exec videoPath =
     (let cmd = ffmpeg_command videoPath;
          res = exec cmd
      in case run_err res of
           Some err \<Rightarrow> (([], Some (ExecutionFailed videoPath err (errb res))), [cmd])
         | None \<Rightarrow>
             (let imageBytes = outb res
              in if length imageBytes = 0
                 then (([], Some (NoThumbnailData videoPath)), [cmd])
                 else
                   (let encodedString = EncodeToString imageBytes;
                        dataURL = ''data:image/jpeg;base64,'' @ encodedString
                    in ((dataURL, None), [cmd]))))"

text \<open>
  The failures as the specification lists them: the tool exits with a status that
  is not zero, or it exits with status zero and writes no bytes.
\<close>

definition claimed_failure :: "cmd_result \<Rightarrow> bool" where
  "claimed_failure res =
     (case run_err res of
        Some (ExitError code) \<Rightarrow> True
      | Some other \<Rightarrow> False
      | None \<Rightarrow> outb res = [])"

text \<open>The tool cannot be started, as when its binary is not installed.\<close>

definition ffmpeg_missing :: "string list \<Rightarrow> cmd_result" where
  "ffmpeg_missing cmd = \<lparr>run_err = Some StartFailed, outb = [], errb = []\<rparr>"

section \<open>Notions for the statements about MoveVideos\<close>

text \<open>A location holds a directory that can be searched.\<close>

definition xdir :: "node \<Rightarrow> string list \<Rightarrow> bool" where
  "xdir root loc = (\<exists>r w. stat_at root loc = Some (KDir r w True))"

text \<open>
  What is seen at a location once the files \<open>done\<close> have been moved into the
  directory at \<open>D\<close>, starting from the file system \<open>f1\<close>: below \<open>D\<close>,
  under the base name of a moved file, the content of the last moved file of that
  base name; nothing where a moved file was; elsewhere what \<open>f1\<close> has.  The
  places and contents of the files are given by \<open>src\<close> and \<open>cont\<close>.
\<close>

definition moved_view ::
  "node \<Rightarrow> string list \<Rightarrow> (string \<Rightarrow> string list) \<Rightarrow> (string \<Rightarrow> nat) \<Rightarrow> string list \<Rightarrow>
   string list \<Rightarrow> kind option" where
  "moved_view f1 D src cont done M =
     (if \<exists>q \<in> set done. M = D @ [filepath_Base q]
      then Some (KFile (cont (last (filter (\<lambda>q. D @ [filepath_Base q] = M) done))))
      else if \<exists>q \<in> set done. M = src q then None
      else stat_at f1 M)"

text \<open>The location a path leads to, and the content of the file found there.\<close>

definition place :: "node \<Rightarrow> string \<Rightarrow> string list" where
  "place root p = (case resolve root p of Inr loc \<Rightarrow> loc | Inl e \<Rightarrow> [])"

definition content :: "node \<Rightarrow> string \<Rightarrow> nat" where
  "content root p = (case os_Stat root p of Inr (KFile c) \<Rightarrow> c | _ \<Rightarrow> 0)"

text \<open>
  Five existing files and one more file in the directory \<^verbatim>\<open>/v\<close>, before the call,
  after the destination is made, and after the five files are moved.
\<close>

definition fs5_all :: node where
  "fs5_all = Dir True True True [(''v'', Dir True True True
     [(''a.m4v'', File 1), (''b.m4v'', File 2), (''c.m4v'', File 3), (''d.m4v'', File 4),
      (''e.m4v'', File 5), (''notes.txt'', File 6)])]"

definition fs5_all_made :: node where
  "fs5_all_made = Dir True True True [(''v'', Dir True True True
     [(''a.m4v'', File 1), (''b.m4v'', File 2), (''c.m4v'', File 3), (''d.m4v'', File 4),
      (''e.m4v'', File 5), (''notes.txt'', File 6), (''a_m4v'', Dir True True True [])])]"

definition fs5_all_moved :: node where
  "fs5_all_moved = Dir True True True [(''v'', Dir True True True
     [(''notes.txt'', File 6),
      (''a_m4v'', Dir True True True
         [(''a.m4v'', File 1), (''b.m4v'', File 2), (''c.m4v'', File 3), (''d.m4v'', File 4),
          (''e.m4v'', File 5)])])]"

definition five_paths :: "string list" where
  "five_paths = [''/v/a.m4v'', ''/v/b.m4v'', ''/v/c.m4v'', ''/v/d.m4v'', ''/v/e.m4v'']"

text \<open>Two files of the same name in two directories.\<close>

definition fs_twins :: node where
  "fs_twins = Dir True True True
     [(''a'', Dir True True True [(''x.m4v'', File 1)]),
      (''b'', Dir True True True [(''x.m4v'', File 2)])]"

definition fs_twins_made :: node where
  "fs_twins_made = Dir True True True
     [(''a'', Dir True True True [(''x.m4v'', File 1), (''x_m4v'', Dir True True True [])]),
      (''b'', Dir True True True [(''x.m4v'', File 2)])]"

definition fs_twins_moved :: node where
  "fs_twins_moved = Dir True True True
     [(''a'', Dir True True True [(''x_m4v'', Dir True True True [(''x.m4v'', File 2)])]),
      (''b'', Dir True True True [])]"

section \<open>The older variant of MoveVideos\<close>

text \<open>
  Two source files of the repository hold an older MoveVideos.  It differs from the
  one of app.go in the destination folder and in the call that makes it; the loop
  over the files is the same.

  \<^verbatim>\<open>filepath.Dir(path)\<close>: the path up to its last separator, cleaned.
\<close>

definition filepath_Dir :: "string \<Rightarrow> string" where
  "filepath_Dir path =
     filepath_Clean (rev (dropWhile (\<lambda>c. \<not> IsPathSeparator c) (rev path)))"

text \<open>
  The destination folder of the older variant: the name of the first file without
  its extension, two directory levels above the file.
\<close>

definition outputDir_older :: "string \<Rightarrow> string" where
  "outputDir_older firstFilePath =
     (let baseName = filepath_Base firstFilePath;
          ext = filepath_Ext baseName;
          outputFolderName = strings_TrimSuffix baseName ext;
          parentDir = filepath_Dir (filepath_Dir firstFilePath)
      in filepath_Join [parentDir, outputFolderName])"

text \<open>
  The rule that app.go keeps in its comment lines 87 to 95: the same name, in the
  directory of the file.
\<close>

definition outputDir_commented :: "string \<Rightarrow> string" where
  "outputDir_commented firstFilePath =
     (let baseName = filepath_Base firstFilePath;
          ext = filepath_Ext baseName;
          outputFolderName = strings_TrimSuffix baseName ext;
          parentDir = filepath_Dir firstFilePath
      in filepath_Join [parentDir, outputFolderName])"

text \<open>
  \<^verbatim>\<open>os.MkdirAll(path, perm)\<close> of the Go library.  A path that is a directory
  already is accepted and a file is refused; otherwise the parent, the path before
  the separator in front of its last element, is made in the same way, and then the
  directory itself with \<^verbatim>\<open>mkdir\<close>; a failure of that is forgiven when the
  directory is there all the same.
\<close>

definition MkdirAll_parent :: "string \<Rightarrow> string" where
  "MkdirAll_parent path =
     (let rest = dropWhile (\<lambda>c. \<not> IsPathSeparator c) (dropWhile IsPathSeparator (rev path))
      in rev (tl rest))"

function os_MkdirAll :: "node \<Rightarrow> string \<Rightarrow> errno + node" where
  "os_MkdirAll root path =
     (case os_Stat root path of
        Inr (KDir r w x) \<Rightarrow> Inr root
      | Inr (KFile c) \<Rightarrow> Inl ENOTDIR
      | Inl e \<Rightarrow>
          (let parent = MkdirAll_parent path
           in case (if parent \<noteq> [] then os_MkdirAll root parent else Inr root) of
                Inl err \<Rightarrow> Inl err
              | Inr root1 \<Rightarrow>
                  (case os_Mkdir root1 path of
                     Inr root2 \<Rightarrow> Inr root2
                   | Inl err \<Rightarrow>
                       (case os_Stat root1 path of
                          Inr (KDir r w x) \<Rightarrow> Inr root1
                        | _ \<Rightarrow> Inl err))))"
  by pat_completeness auto
termination
proof (relation "measure (\<lambda>(root, path). length path)", goal_cases)
  case 1
  show ?case by simp
next
  case (2 root path e parent)
  have "length (tl xs) < length ys" if "tl xs \<noteq> []" "length xs \<le> length ys" for xs ys :: string
    using that by (cases xs) auto
  moreover have "length (dropWhile (\<lambda>c. \<not> IsPathSeparator c) (dropWhile IsPathSeparator (rev path)))
      \<le> length path"
    by (metis length_dropWhile_le le_trans length_rev)
  ultimately show ?case using 2 by (simp add: MkdirAll_parent_def Let_def)
qed

text \<open>The older MoveVideos.\<close>

definition MoveVideos_older :: "string list \<Rightarrow> world \<Rightarrow> error option \<times> world" where
  "MoveVideos_older absoluteFilePaths w =
     (let w1 = emit (Status_Received (length absoluteFilePaths)) w
      in case absoluteFilePaths of
           [] \<Rightarrow> (Some NoVideoFiles, emit (MoveError NoVideoFiles) w1)
         | firstFilePath # others \<Rightarrow>
             (let outputDir = outputDir_older firstFilePath;
                  w2 = emit (Status_Target outputDir) w1
              in case os_MkdirAll (fs w2) outputDir of
                   Inl err \<Rightarrow>
                     (Some (MkdirFailed outputDir err),
                      emit (MoveError (MkdirFailed outputDir err)) w2)
                 | Inr fs' \<Rightarrow>
                     (let w3 = emit Status_Starting
                                 (emit Status_DirCreated (w2\<lparr>fs := fs'\<rparr>))
                      in case moveEach outputDir absoluteFilePaths 0 w3 of
                           (Inl failure, w4) \<Rightarrow> (Some failure, w4)
                         | (Inr movedCount, w4) \<Rightarrow>
                             (None, emit (MoveComplete movedCount outputDir) w4))))"

section \<open>Properties of the destination folder\<close>

lemma genSplit_not_Nil: "genSplit sep piece s \<noteq> []"
  by (induction sep piece s rule: genSplit.induct) auto

lemma genSplit_dot_Join:
  "strings_Join (genSplit ''.'' piece s) ''_'' =
     rev piece @ map (\<lambda>c. if c = CHR ''.'' then CHR ''_'' else c) s"
proof (induction s arbitrary: piece)
  case Nil
  show ?case by simp
next
  case (Cons c s)
  show ?case
  proof (cases "c = CHR ''.''")
    case True
    obtain x xs where g: "genSplit ''.'' [] s = x # xs"
      using genSplit_not_Nil [of "''.''" "[]" s] by (cases "genSplit ''.'' [] s") auto
    from Cons [of "[]"] g True show ?thesis by simp
  next
    case False
    with Cons [of "c # piece"] show ?thesis by simp
  qed
qed

text \<open>
  C4 (as amended).  The folder rule of app.go keeps the whole first path, directories and
  extension included, and replaces every dot in it by an underscore; no extension is
  stripped and no path separator is replaced.
\<close>

theorem outputDir_replaces_dots:
  "outputDir_of firstFilePath =
     map (\<lambda>c. if c = CHR ''.'' then CHR ''_'' else c) firstFilePath"
  using genSplit_dot_Join [of "[]" firstFilePath]
  by (simp add: outputDir_of_def strings_Split_def)

text \<open>
  C4 (as stated) fails: for \<^verbatim>\<open>/videos/clip.m4v\<close> app.go computes
  \<^verbatim>\<open>/videos/clip_m4v\<close>, while stripping the extension and replacing the separators
  would give \<^verbatim>\<open>_videos_clip\<close>.
\<close>

theorem outputDir_claimed_counterexample:
  "outputDir_of ''/videos/clip.m4v'' = ''/videos/clip_m4v'' \<and>
   outputDir_claimed ''/videos/clip.m4v'' = ''_videos_clip'' \<and>
   outputDir_of ''/videos/clip.m4v'' \<noteq> outputDir_claimed ''/videos/clip.m4v''"
  by (simp add: outputDir_of_def outputDir_claimed_def strings_Split_def
      strings_TrimSuffix_def strings_HasSuffix_def filepath_Ext_def IsPathSeparator_def)


section \<open>The file system: lookups after an update\<close>

lemma lookup_append:
  "lookup root (L @ N) = (case lookup root L of None \<Rightarrow> None | Some m \<Rightarrow> lookup m N)"
  by (induction L arbitrary: root) (auto split: option.splits)

lemma stat_at_Nil [simp]: "stat_at root [] = Some (kind_of root)"
  by (simp add: stat_at_def)

lemma stat_at_Cons:
  "stat_at root (k # ks) = (case child root k of None \<Rightarrow> None | Some m \<Rightarrow> stat_at m ks)"
  by (simp add: stat_at_def split: option.splits)

text \<open>
  Storing or removing a subtree at a location whose parent directory exists changes
  what is seen at and below that location, and nothing else.
\<close>

lemma stat_at_put:
  "L \<noteq> [] \<Longrightarrow> stat_at root (butlast L) = Some (KDir r w x) \<Longrightarrow>
   stat_at (put L v root) M =
     (if prefix L M
      then (case v of None \<Rightarrow> None | Some m \<Rightarrow> stat_at m (drop (length L) M))
      else stat_at root M)"
proof (induction L v root arbitrary: M rule: put.induct)
  case (1 v n)
  then show ?case by simp
next
  case (2 k ks v c)
  then show ?case by (cases ks) (simp_all add: stat_at_Cons)
next
  case (3 k v r' w' x' es)
  show ?case
  proof (cases M)
    case Nil
    then show ?thesis by simp
  next
    case (Cons k2 M')
    then show ?thesis
      by (cases v) (simp_all add: stat_at_Cons update_conv' delete_conv')
  qed
next
  case (4 k k' ks v r' w' x' es)
  from "4.prems" obtain m0 where m0: "map_of es k = Some m0"
    and p: "stat_at m0 (butlast (k' # ks)) = Some (KDir r w x)"
    by (auto simp: stat_at_Cons split: option.splits)
  show ?case
  proof (cases M)
    case Nil
    then show ?thesis using m0 by simp
  next
    case (Cons k2 M')
    show ?thesis
    proof (cases "k2 = k")
      case True
      have "stat_at (put (k' # ks) v m0) M' =
        (if prefix (k' # ks) M'
         then (case v of None \<Rightarrow> None | Some m \<Rightarrow> stat_at m (drop (length (k' # ks)) M'))
         else stat_at m0 M')"
        using m0 p by (intro "4.IH") simp_all
      then show ?thesis using m0 True Cons
        by (cases v) (simp_all add: stat_at_Cons update_conv')
    next
      case False
      then show ?thesis using m0 Cons
        by (simp add: stat_at_Cons update_conv')
    qed
  qed
qed

section \<open>Path resolution\<close>

lemma namei_empties: "namei root cur (replicate n []) = Inr loc \<Longrightarrow> loc = cur"
  by (induction n) (auto split: option.splits kind.splits if_splits)

lemma namei_trailing:
  "namei root cur (es @ replicate n []) = Inr loc \<Longrightarrow> namei root cur es = Inr loc"
proof (induction es arbitrary: cur)
  case Nil
  then show ?case using namei_empties [of root cur n loc] by simp
next
  case (Cons e es)
  then show ?case by (auto split: option.splits kind.splits if_splits)
qed

lemma split_stripped:
  "\<exists>n. strings_Split p ''/'' = elems_stripped p @ replicate n []"
proof -
  define xs where "xs = rev (strings_Split p ''/'')"
  define t where "t = takeWhile (\<lambda>e. e = []) xs"
  have "\<forall>e \<in> set (rev t). e = []"
    unfolding t_def by (auto dest: set_takeWhileD)
  then have t: "replicate (length (rev t)) [] = rev t"
    by (rule replicate_length_same)
  have "rev (t @ dropWhile (\<lambda>e. e = []) xs) = rev xs"
    unfolding t_def by (simp only: takeWhile_dropWhile_id)
  then have "strings_Split p ''/'' = elems_stripped p @ rev t"
    by (simp add: elems_stripped_def xs_def)
  then have "strings_Split p ''/'' = elems_stripped p @ replicate (length (rev t)) []"
    by (simp only: t)
  then show ?thesis ..
qed

text \<open>A path that \<^verbatim>\<open>stat\<close> finds cannot be made as a directory.\<close>

lemma Stat_Mkdir_EEXIST:
  assumes "os_Stat root p = Inr k"
  shows "os_Mkdir root p = Inl EEXIST"
proof -
  from assms have ne: "p \<noteq> []"
    by (auto simp: os_Stat_def resolve_def split: if_splits)
  with assms obtain loc where r: "namei root [] (strings_Split p ''/'') = Inr loc"
    and s: "stat_at root loc = Some k"
    by (cases "namei root [] (strings_Split p ''/'')")
       (auto simp: os_Stat_def resolve_def split: option.splits)
  from split_stripped obtain n
    where "strings_Split p ''/'' = elems_stripped p @ replicate n []" ..
  with r have "namei root [] (elems_stripped p @ replicate n []) = Inr loc"
    by (simp only:)
  then have "namei root [] (elems_stripped p) = Inr loc"
    by (rule namei_trailing)
  with ne s show ?thesis by (simp add: os_Mkdir_def)
qed

section \<open>MoveVideos: rejection, directory creation, first failure\<close>

lemma moveEach_prefix:
  "moved out pre (fs w) = Some fsk \<Longrightarrow>
   moveEach out (pre @ rest) c w =
     moveEach out rest (c + length pre)
       (w\<lparr>fs := fsk,
          events := events w @ map (\<lambda>p. Status_Moving (filepath_Base p)) pre\<rparr>)"
proof (induction pre arbitrary: w c)
  case Nil
  then show ?case by (cases w) simp
next
  case (Cons p pre)
  from Cons.prems obtain f1 where
    r: "os_Rename (fs w) p (filepath_Join [out, filepath_Base p]) = Inr f1"
    and m: "moved out pre f1 = Some fsk"
    by (auto split: sum.splits)
  let ?w = "emit (Status_Moving (filepath_Base p)) w\<lparr>fs := f1\<rparr>"
  have "moveEach out ((p # pre) @ rest) c w = moveEach out (pre @ rest) (c + 1) ?w"
    using r by (simp add: Let_def emit_def)
  also have "\<dots> = moveEach out rest (c + 1 + length pre)
       (?w\<lparr>fs := fsk,
           events := events ?w @ map (\<lambda>p. Status_Moving (filepath_Base p)) pre\<rparr>)"
    using m by (intro Cons.IH) (simp add: emit_def)
  finally show ?case by (simp add: emit_def)
qed

lemma moveEach_fail:
  "os_Rename (fs w) p (filepath_Join [out, filepath_Base p]) = Inl e \<Longrightarrow>
   moveEach out (p # post) c w =
     (let failure = (if os_Stat (fs w) p = Inl ENOENT then SourceNotFound (filepath_Base p)
                     else MoveFailed (filepath_Base p)
                            (filepath_Join [out, filepath_Base p]) e)
      in (Inl failure,
          w\<lparr>events := events w @ [Status_Moving (filepath_Base p), MoveError failure]\<rparr>))"
  by (auto simp: Let_def emit_def IsNotExist_def split: sum.splits)

lemma MoveVideos_Mkdir_fails:
  "os_Mkdir (fs w) (outputDir_of first) = Inl e \<Longrightarrow>
   MoveVideos (first # others) w =
     (Some (MkdirFailed (outputDir_of first) e),
      w\<lparr>events := events w @
         [Status_Received (Suc (length others)), Status_Target (outputDir_of first),
          MoveError (MkdirFailed (outputDir_of first) e)]\<rparr>)"
  by (simp add: MoveVideos_def Let_def emit_def)

lemma MoveVideos_Mkdir_ok:
  "os_Mkdir (fs w) (outputDir_of first) = Inr fs1 \<Longrightarrow>
   MoveVideos (first # others) w =
     (case moveEach (outputDir_of first) (first # others) 0
             \<lparr>fs = fs1,
              events = events w @
                [Status_Received (Suc (length others)), Status_Target (outputDir_of first),
                 Status_DirCreated, Status_Starting]\<rparr> of
        (Inl failure, w4) \<Rightarrow> (Some failure, w4)
      | (Inr movedCount, w4) \<Rightarrow>
          (None, emit (MoveComplete movedCount (outputDir_of first)) w4))"
  unfolding MoveVideos_def
  by (cases w) (simp add: Let_def emit_def del: moveEach.simps split: prod.split sum.split)

text \<open>
  C5.  A request with no entries is rejected: MoveVideos returns the error, emits
  the received-count and the error event, and the file system it leaves is the one
  it found; no directory is made and no file is renamed.
\<close>

theorem MoveVideos_empty_request:
  "MoveVideos [] w =
     (Some NoVideoFiles,
      w\<lparr>events := events w @ [Status_Received 0, MoveError NoVideoFiles]\<rparr>) \<and>
   fs (snd (MoveVideos [] w)) = fs w"
  by (simp add: MoveVideos_def Let_def emit_def)

text \<open>
  C9.  When the destination path computed from the first file exists already, as a
  directory or as anything else, \<^verbatim>\<open>os.Mkdir\<close> refuses it: MoveVideos of app.go
  returns the directory-creation error, emits no moving event and leaves the file
  system as it was.
\<close>

theorem MoveVideos_existing_destination:
  assumes "os_Stat (fs w) (outputDir_of first) = Inr k"
  shows "MoveVideos (first # others) w =
     (Some (MkdirFailed (outputDir_of first) EEXIST),
      w\<lparr>events := events w @
         [Status_Received (Suc (length others)), Status_Target (outputDir_of first),
          MoveError (MkdirFailed (outputDir_of first) EEXIST)]\<rparr>) \<and>
     fs (snd (MoveVideos (first # others) w)) = fs w"
  using MoveVideos_Mkdir_fails [OF Stat_Mkdir_EEXIST [OF assms], of others] by simp

theorem MoveVideos_existing_destination_witness:
  "os_Stat fs5_made (outputDir_of ''/v/a.m4v'') = Inr (KDir True True True) \<and>
   MoveVideos [''/v/a.m4v'', ''/v/b.m4v''] \<lparr>fs = fs5_made, events = []\<rparr> =
     (Some (MkdirFailed ''/v/a_m4v'' EEXIST),
      \<lparr>fs = fs5_made,
       events = [Status_Received 2, Status_Target ''/v/a_m4v'',
                 MoveError (MkdirFailed ''/v/a_m4v'' EEXIST)]\<rparr>)"
proof -
  have o: "outputDir_of ''/v/a.m4v'' = ''/v/a_m4v''"
    by code_simp
  have h: "os_Stat (fs \<lparr>fs = fs5_made, events = []\<rparr>) (outputDir_of ''/v/a.m4v'') =
      Inr (KDir True True True)"
    unfolding o by code_simp
  from MoveVideos_existing_destination [OF h, of "[''/v/b.m4v'']"] h
  show ?thesis by (simp add: o)
qed

text \<open>
  C1.  Let the destination directory be made, let the files before \<open>p\<close> be renamed
  one after the other, and let the rename of \<open>p\<close> be refused.  Then MoveVideos
  returns an error for \<open>p\<close>: the not-found error when \<^verbatim>\<open>stat\<close> reports that \<open>p\<close>
  does not exist, the generic move error otherwise.  The file system it leaves is
  the one reached after the renames before \<open>p\<close>: they are not undone, and nothing
  is done for the files after \<open>p\<close>, for which not even a moving event is emitted.
\<close>

theorem MoveVideos_stops_at_first_failure:
  assumes "os_Mkdir (fs w) (outputDir_of (hd (pre @ p # post))) = Inr fs1"
    and "moved (outputDir_of (hd (pre @ p # post))) pre fs1 = Some fsk"
    and "os_Rename fsk p
           (filepath_Join [outputDir_of (hd (pre @ p # post)), filepath_Base p]) = Inl e"
  shows "MoveVideos (pre @ p # post) w =
     (let outputDir = outputDir_of (hd (pre @ p # post));
          failure = (if os_Stat fsk p = Inl ENOENT then SourceNotFound (filepath_Base p)
                     else MoveFailed (filepath_Base p)
                            (filepath_Join [outputDir, filepath_Base p]) e)
      in (Some failure,
          \<lparr>fs = fsk,
           events = events w @
             [Status_Received (length (pre @ p # post)), Status_Target outputDir,
              Status_DirCreated, Status_Starting] @
             map (\<lambda>q. Status_Moving (filepath_Base q)) (pre @ [p]) @
             [MoveError failure]\<rparr>))"
proof -
  let ?out = "outputDir_of (hd (pre @ p # post))"
  let ?w3 = "\<lparr>fs = fs1, events = events w @ [Status_Received (length (pre @ p # post)),
       Status_Target ?out, Status_DirCreated, Status_Starting]\<rparr>"
  obtain first others where l: "pre @ p # post = first # others"
    by (cases "pre @ p # post") auto
  have mv: "MoveVideos (pre @ p # post) w =
      (case moveEach ?out (pre @ p # post) 0 ?w3 of
         (Inl failure, w4) \<Rightarrow> (Some failure, w4)
       | (Inr movedCount, w4) \<Rightarrow> (None, emit (MoveComplete movedCount ?out) w4))"
  proof -
    from assms(1) have "os_Mkdir (fs w) (outputDir_of first) = Inr fs1"
      unfolding l by (simp only: list.sel)
    from MoveVideos_Mkdir_ok [OF this, of others] show ?thesis
      unfolding l by (simp only: list.sel length_Cons)
  qed
  have "moveEach ?out (pre @ p # post) 0 ?w3 =
      moveEach ?out (p # post) (0 + length pre)
        (?w3\<lparr>fs := fsk,
             events := events ?w3 @ map (\<lambda>p. Status_Moving (filepath_Base p)) pre\<rparr>)"
    using assms(2) by (intro moveEach_prefix) simp
  also have "\<dots> =
     (let failure = (if os_Stat fsk p = Inl ENOENT then SourceNotFound (filepath_Base p)
                     else MoveFailed (filepath_Base p)
                            (filepath_Join [?out, filepath_Base p]) e)
      in (Inl failure,
          \<lparr>fs = fsk,
           events = events ?w3 @ map (\<lambda>p. Status_Moving (filepath_Base p)) pre
             @ [Status_Moving (filepath_Base p), MoveError failure]\<rparr>))"
    using assms(3) by (subst moveEach_fail [where e = e]) (simp_all add: Let_def)
  finally show ?thesis unfolding mv by (simp add: Let_def)
qed

text \<open>
  The five-file request: c has been deleted before the call.  The files a and b are
  moved, the not-found error for c is returned, d and e are where they were.
\<close>

theorem MoveVideos_stops_at_first_failure_witness:
  "os_Mkdir fs5 ''/v/a_m4v'' = Inr fs5_made \<and>
   moved ''/v/a_m4v'' [''/v/a.m4v'', ''/v/b.m4v''] fs5_made = Some fs5_halted \<and>
   os_Rename fs5_halted ''/v/c.m4v'' ''/v/a_m4v/c.m4v'' = Inl ENOENT \<and>
   MoveVideos [''/v/a.m4v'', ''/v/b.m4v'', ''/v/c.m4v'', ''/v/d.m4v'', ''/v/e.m4v'']
      \<lparr>fs = fs5, events = []\<rparr> =
     (Some (SourceNotFound ''c.m4v''),
      \<lparr>fs = fs5_halted,
       events = [Status_Received 5, Status_Target ''/v/a_m4v'', Status_DirCreated,
         Status_Starting, Status_Moving ''a.m4v'', Status_Moving ''b.m4v'',
         Status_Moving ''c.m4v'', MoveError (SourceNotFound ''c.m4v'')]\<rparr>) \<and>
   os_Stat fs5_halted ''/v/a_m4v/a.m4v'' = Inr (KFile 1) \<and>
   os_Stat fs5_halted ''/v/a_m4v/b.m4v'' = Inr (KFile 2) \<and>
   os_Stat fs5_halted ''/v/a.m4v'' = Inl ENOENT \<and>
   os_Stat fs5_halted ''/v/b.m4v'' = Inl ENOENT \<and>
   os_Stat fs5_halted ''/v/d.m4v'' = Inr (KFile 4) \<and>
   os_Stat fs5_halted ''/v/e.m4v'' = Inr (KFile 5)"
proof -
  let ?pre = "[''/v/a.m4v'', ''/v/b.m4v'']"
  let ?post = "[''/v/d.m4v'', ''/v/e.m4v'']"
  have o: "outputDir_of (hd (?pre @ ''/v/c.m4v'' # ?post)) = ''/v/a_m4v''"
    by code_simp
  have b: "filepath_Base ''/v/c.m4v'' = ''c.m4v''"
      "filepath_Base ''/v/a.m4v'' = ''a.m4v''" "filepath_Base ''/v/b.m4v'' = ''b.m4v''"
    by code_simp+
  have j: "filepath_Join [''/v/a_m4v'', ''c.m4v''] = ''/v/a_m4v/c.m4v''"
    by code_simp
  have h1: "os_Mkdir (fs \<lparr>fs = fs5, events = []\<rparr>)
      (outputDir_of (hd (?pre @ ''/v/c.m4v'' # ?post))) = Inr fs5_made"
    unfolding o by code_simp
  have h2: "moved (outputDir_of (hd (?pre @ ''/v/c.m4v'' # ?post))) ?pre fs5_made =
      Some fs5_halted"
    unfolding o by code_simp
  have h3: "os_Rename fs5_halted ''/v/c.m4v''
      (filepath_Join [outputDir_of (hd (?pre @ ''/v/c.m4v'' # ?post)),
         filepath_Base ''/v/c.m4v'']) = Inl ENOENT"
    unfolding o b j by code_simp
  have h4: "os_Stat fs5_halted ''/v/c.m4v'' = Inl ENOENT"
    by code_simp
  have s: "os_Stat fs5_halted ''/v/a_m4v/a.m4v'' = Inr (KFile 1)"
      "os_Stat fs5_halted ''/v/a_m4v/b.m4v'' = Inr (KFile 2)"
      "os_Stat fs5_halted ''/v/a.m4v'' = Inl ENOENT"
      "os_Stat fs5_halted ''/v/b.m4v'' = Inl ENOENT"
      "os_Stat fs5_halted ''/v/d.m4v'' = Inr (KFile 4)"
      "os_Stat fs5_halted ''/v/e.m4v'' = Inr (KFile 5)"
    by code_simp+
  from MoveVideos_stops_at_first_failure [OF h1 h2 h3]
  have "MoveVideos (?pre @ ''/v/c.m4v'' # ?post) \<lparr>fs = fs5, events = []\<rparr> =
     (Some (SourceNotFound ''c.m4v''),
      \<lparr>fs = fs5_halted,
       events = [Status_Received 5, Status_Target ''/v/a_m4v'', Status_DirCreated,
         Status_Starting, Status_Moving ''a.m4v'', Status_Moving ''b.m4v'',
         Status_Moving ''c.m4v'', MoveError (SourceNotFound ''c.m4v'')]\<rparr>)"
    unfolding o b by (simp add: h4 Let_def b)
  moreover note h1 [unfolded o] h2 [unfolded o] h3 [unfolded o b j] s
  ultimately show ?thesis by simp
qed


section \<open>MoveVideos: the destination directory\<close>

lemma stat_at_below_missing:
  "stat_at root L = None \<Longrightarrow> stat_at root (L @ N) = None"
  by (simp add: stat_at_def lookup_append)

lemma stat_at_below_file:
  "stat_at root L = Some (KFile c) \<Longrightarrow> N \<noteq> [] \<Longrightarrow> stat_at root (L @ N) = None"
proof -
  assume a: "stat_at root L = Some (KFile c)" and n: "N \<noteq> []"
  then obtain m where m: "lookup root L = Some m" "kind_of m = KFile c"
    by (auto simp: stat_at_def)
  then have "m = File c" by (cases m) auto
  with m n show ?thesis by (cases N) (simp_all add: stat_at_def lookup_append)
qed

text \<open>
  A successful \<^verbatim>\<open>mkdir\<close> adds one empty directory below an existing writable
  directory and changes nothing else.
\<close>

lemma os_Mkdir_effect:
  assumes "os_Mkdir root p = Inr root'"
  shows "\<exists>loc r x. namei root [] (elems_stripped p) = Inr loc \<and> loc \<noteq> [] \<and>
           stat_at root loc = None \<and>
           stat_at root (butlast loc) = Some (KDir r True x) \<and>
           root' = put loc (Some (Dir True True True [])) root \<and>
           (\<forall>M. stat_at root' M =
                 (if M = loc then Some (KDir True True True) else stat_at root M))"
proof -
  from assms obtain loc where n: "namei root [] (elems_stripped p) = Inr loc"
    and s: "stat_at root loc = None" and w: "dir_writable root (butlast loc)"
    and r': "root' = put loc (Some (Dir True True True [])) root"
    by (auto simp: os_Mkdir_def split: if_splits sum.splits option.splits)
  from s have ne: "loc \<noteq> []" by auto
  from w obtain r x where par: "stat_at root (butlast loc) = Some (KDir r True x)"
    by (auto simp: dir_writable_def split: option.splits kind.splits)
  have "stat_at root' M = (if M = loc then Some (KDir True True True) else stat_at root M)" for M
  proof (cases "prefix loc M")
    case True
    then obtain N where M: "M = loc @ N" by (auto simp: prefix_def)
    show ?thesis
    proof (cases N)
      case Nil
      with M show ?thesis unfolding r' by (simp add: stat_at_put [OF ne par])
    next
      case (Cons k ks)
      with M stat_at_below_missing [OF s, of N] show ?thesis
        unfolding r' by (simp add: stat_at_put [OF ne par] stat_at_Cons)
    qed
  next
    case False
    then have "M \<noteq> loc" by auto
    with False show ?thesis unfolding r' by (simp add: stat_at_put [OF ne par])
  qed
  with n ne s par r' show ?thesis by blast
qed

text \<open>
  C3 (as amended).  For a request that is not empty, MoveVideos of app.go calls
  \<^verbatim>\<open>os.Mkdir\<close> on the destination path before it moves anything.  When that
  fails, the error is returned, no moving event is emitted and the file system is
  unchanged.  When it succeeds, the parent of the destination existed already as a
  writable directory, the destination did not exist, the one new directory is the
  only change, and the files are then moved in the file system so obtained.  No
  missing parent directory is ever made.
\<close>

theorem MoveVideos_makes_one_directory:
  "(case os_Mkdir (fs w) (outputDir_of first) of
      Inl e \<Rightarrow>
        MoveVideos (first # others) w =
          (Some (MkdirFailed (outputDir_of first) e),
           w\<lparr>events := events w @
              [Status_Received (Suc (length others)), Status_Target (outputDir_of first),
               MoveError (MkdirFailed (outputDir_of first) e)]\<rparr>)
    | Inr fs1 \<Rightarrow>
        (\<exists>loc r x.
            namei (fs w) [] (elems_stripped (outputDir_of first)) = Inr loc \<and> loc \<noteq> [] \<and>
            stat_at (fs w) loc = None \<and>
            stat_at (fs w) (butlast loc) = Some (KDir r True x) \<and>
            (\<forall>M. stat_at fs1 M =
                  (if M = loc then Some (KDir True True True) else stat_at (fs w) M))) \<and>
        MoveVideos (first # others) w =
          (case moveEach (outputDir_of first) (first # others) 0
                  \<lparr>fs = fs1,
                   events = events w @
                     [Status_Received (Suc (length others)),
                      Status_Target (outputDir_of first),
                      Status_DirCreated, Status_Starting]\<rparr> of
             (Inl failure, w4) \<Rightarrow> (Some failure, w4)
           | (Inr movedCount, w4) \<Rightarrow>
               (None, emit (MoveComplete movedCount (outputDir_of first)) w4)))"
proof (cases "os_Mkdir (fs w) (outputDir_of first)")
  case (Inl e)
  with MoveVideos_Mkdir_fails [OF Inl, of others] show ?thesis by simp
next
  case (Inr fs1)
  from os_Mkdir_effect [OF Inr] MoveVideos_Mkdir_ok [OF Inr, of others] Inr
  show ?thesis by (simp only: sum.case) blast
qed

text \<open>
  C3 (as stated) fails: the first file lies in the directory \<^verbatim>\<open>/x.y\<close>, so the
  destination is \<^verbatim>\<open>/x_y/a_m4v\<close>, and its parent \<^verbatim>\<open>/x_y\<close> does not exist.
  The root is writable, yet the missing parent is not made: the request fails and
  nothing is created.
\<close>

theorem MoveVideos_missing_parent_counterexample:
  "MoveVideos [''/x.y/a.m4v''] \<lparr>fs = fs_dotted, events = []\<rparr> =
     (Some (MkdirFailed ''/x_y/a_m4v'' ENOENT),
      \<lparr>fs = fs_dotted,
       events = [Status_Received 1, Status_Target ''/x_y/a_m4v'',
                 MoveError (MkdirFailed ''/x_y/a_m4v'' ENOENT)]\<rparr>) \<and>
   os_Stat fs_dotted ''/x_y'' = Inl ENOENT \<and>
   os_Stat fs_dotted ''/x_y/a_m4v'' = Inl ENOENT \<and>
   os_Stat fs_dotted ''/x.y/a.m4v'' = Inr (KFile 1)"
  by code_simp

section \<open>SelectDirectory: what the scan returns\<close>

text \<open>Lowering a byte gives a byte of \<^verbatim>\<open>.m4v\<close> for that byte and its capital only.\<close>

lemma of_char_toLower:
  "(of_char (toLower_byte c) :: nat) =
     (if 65 \<le> (of_char c :: nat) \<and> (of_char c :: nat) \<le> 90 then of_char c + 32 else of_char c)"
  by (simp add: toLower_byte_def)

lemma toLower_eq_iff:
  "toLower_byte c = d \<longleftrightarrow>
     (if 65 \<le> (of_char c :: nat) \<and> (of_char c :: nat) \<le> 90 then of_char c + 32 else of_char c) = (of_char d :: nat)"
  using of_char_toLower [of c] of_char_eq_iff [of "toLower_byte c" d, where ?'a = nat]
  by simp

lemma of_char_eq_nat: "(of_char c :: nat) = of_char d \<longleftrightarrow> c = d"
  by (rule of_char_eq_iff)

lemma toLower_dot: "toLower_byte c = CHR ''.'' \<longleftrightarrow> c = CHR ''.''"
proof -
  have "c = CHR ''.'' \<longleftrightarrow> (of_char c :: nat) = 46"
    using of_char_eq_nat [of c "CHR ''.''"] by simp
  then show ?thesis unfolding toLower_eq_iff by (simp split: if_splits)
qed

lemma toLower_4: "toLower_byte c = CHR ''4'' \<longleftrightarrow> c = CHR ''4''"
proof -
  have "c = CHR ''4'' \<longleftrightarrow> (of_char c :: nat) = 52"
    using of_char_eq_nat [of c "CHR ''4''"] by simp
  then show ?thesis unfolding toLower_eq_iff by (simp split: if_splits)
qed

lemma toLower_m: "toLower_byte c = CHR ''m'' \<longleftrightarrow> c = CHR ''m'' \<or> c = CHR ''M''"
proof -
  have "c = CHR ''m'' \<longleftrightarrow> (of_char c :: nat) = 109" "c = CHR ''M'' \<longleftrightarrow> (of_char c :: nat) = 77"
    using of_char_eq_nat [of c "CHR ''m''"] of_char_eq_nat [of c "CHR ''M''"] by simp_all
  then show ?thesis unfolding toLower_eq_iff by (auto split: if_splits)
qed

lemma toLower_v: "toLower_byte c = CHR ''v'' \<longleftrightarrow> c = CHR ''v'' \<or> c = CHR ''V''"
proof -
  have "c = CHR ''v'' \<longleftrightarrow> (of_char c :: nat) = 118" "c = CHR ''V'' \<longleftrightarrow> (of_char c :: nat) = 86"
    using of_char_eq_nat [of c "CHR ''v''"] of_char_eq_nat [of c "CHR ''V''"] by simp_all
  then show ?thesis unfolding toLower_eq_iff by (auto split: if_splits)
qed

text \<open>Both tests of the name, on the reversed name.\<close>

lemma HasSuffix_rev:
  "strings_HasSuffix s suf \<longleftrightarrow> prefix (rev suf) (rev s)"
proof
  assume "strings_HasSuffix s suf"
  then have "s = take (length s - length suf) s @ suf"
    unfolding strings_HasSuffix_def by (metis append_take_drop_id)
  then have "rev s = rev suf @ rev (take (length s - length suf) s)"
    by (metis rev_append)
  then show "prefix (rev suf) (rev s)" by (metis prefixI)
next
  assume "prefix (rev suf) (rev s)"
  then obtain u where "rev s = rev suf @ u" by (auto simp: prefix_def)
  then have "s = rev u @ suf" by (metis rev_append rev_rev_ident)
  then show "strings_HasSuffix s suf" by (simp add: strings_HasSuffix_def)
qed

lemma map_starts_with4:
  "(\<exists>u. map f r = [p, q, s, t] @ u) \<longleftrightarrow>
     (\<exists>a b c d u. r = a # b # c # d # u \<and> f a = p \<and> f b = q \<and> f c = s \<and> f d = t)"
  by (auto simp: map_eq_Cons_conv)

lemma HasSuffix_m4v:
  "strings_HasSuffix (strings_ToLower name) ''.m4v'' \<longleftrightarrow>
     (\<exists>a c u. rev name = a # CHR ''4'' # c # CHR ''.'' # u \<and>
        (a = CHR ''v'' \<or> a = CHR ''V'') \<and> (c = CHR ''m'' \<or> c = CHR ''M''))"
proof -
  have "strings_HasSuffix (strings_ToLower name) ''.m4v'' \<longleftrightarrow>
      (\<exists>u. map toLower_byte (rev name) = ''v4m.'' @ u)"
    by (simp add: HasSuffix_rev strings_ToLower_def rev_map prefix_def)
  also have "\<dots> \<longleftrightarrow> (\<exists>a b c d u. rev name = a # b # c # d # u \<and> toLower_byte a = CHR ''v'' \<and>
      toLower_byte b = CHR ''4'' \<and> toLower_byte c = CHR ''m'' \<and> toLower_byte d = CHR ''.'')"
    using map_starts_with4 [of toLower_byte "rev name" "CHR ''v''" "CHR ''4''" "CHR ''m''" "CHR ''.''"]
    by (simp only: append_Cons append_Nil)
  also have "\<dots> \<longleftrightarrow> (\<exists>a c u. rev name = a # CHR ''4'' # c # CHR ''.'' # u \<and>
        (a = CHR ''v'' \<or> a = CHR ''V'') \<and> (c = CHR ''m'' \<or> c = CHR ''M''))"
    unfolding toLower_dot toLower_4 toLower_m toLower_v by blast
  finally show ?thesis .
qed

lemma Ext_m4v:
  "strings_ToLower (filepath_Ext name) = ''.m4v'' \<longleftrightarrow>
     (\<exists>a c u. rev name = a # CHR ''4'' # c # CHR ''.'' # u \<and>
        (a = CHR ''v'' \<or> a = CHR ''V'') \<and> (c = CHR ''m'' \<or> c = CHR ''M''))"
proof
  assume "\<exists>a c u. rev name = a # CHR ''4'' # c # CHR ''.'' # u \<and>
        (a = CHR ''v'' \<or> a = CHR ''V'') \<and> (c = CHR ''m'' \<or> c = CHR ''M'')"
  then obtain a c u where r: "rev name = a # CHR ''4'' # c # CHR ''.'' # u"
    and a: "a = CHR ''v'' \<or> a = CHR ''V''" and c: "c = CHR ''m'' \<or> c = CHR ''M''"
    by blast
  from a c have "toLower_byte a = CHR ''v''" "toLower_byte c = CHR ''m''"
    by (simp_all add: toLower_v toLower_m)
  moreover have "toLower_byte CHR ''.'' = CHR ''.''" "toLower_byte CHR ''4'' = CHR ''4''"
    by (simp_all add: toLower_dot toLower_4)
  moreover from a c have "filepath_Ext name = [CHR ''.'', c, CHR ''4'', a]"
    unfolding filepath_Ext_def r by (auto simp: IsPathSeparator_def)
  ultimately show "strings_ToLower (filepath_Ext name) = ''.m4v''"
    by (simp add: strings_ToLower_def)
next
  assume l: "strings_ToLower (filepath_Ext name) = ''.m4v''"
  define elem where "elem = takeWhile (\<lambda>c. \<not> IsPathSeparator c) (rev name)"
  define tw where "tw = takeWhile (\<lambda>c. c \<noteq> CHR ''.'') elem"
  from l have dot: "CHR ''.'' \<in> set elem"
    unfolding filepath_Ext_def elem_def by (auto simp: Let_def strings_ToLower_def split: if_splits)
  with l have "map toLower_byte (rev tw) = ''m4v''"
    unfolding filepath_Ext_def elem_def [symmetric] tw_def
    by (simp add: Let_def strings_ToLower_def)
  then obtain x y z where "rev tw = [x, y, z]" and f: "toLower_byte x = CHR ''m''"
      "toLower_byte y = CHR ''4''" "toLower_byte z = CHR ''v''"
    by (auto simp: map_eq_Cons_conv)
  then have tw: "tw = [z, y, x]"
    by (metis rev_rev_ident rev.simps append_Cons append_Nil)
  from dot have "dropWhile (\<lambda>c. c \<noteq> CHR ''.'') elem \<noteq> []"
    by (simp add: dropWhile_eq_Nil_conv)
  then obtain d rest where dw: "dropWhile (\<lambda>c. c \<noteq> CHR ''.'') elem = d # rest"
    by (cases "dropWhile (\<lambda>c. c \<noteq> CHR ''.'') elem") auto
  with hd_dropWhile [of "\<lambda>c. c \<noteq> CHR ''.''" elem] have d: "d = CHR ''.''"
    by auto
  have "elem = tw @ dropWhile (\<lambda>c. c \<noteq> CHR ''.'') elem"
    unfolding tw_def by simp
  with tw dw d have e: "elem = z # y # x # CHR ''.'' # rest" by simp
  have "rev name = elem @ dropWhile (\<lambda>c. \<not> IsPathSeparator c) (rev name)"
    unfolding elem_def by simp
  with e have "rev name = z # y # x # CHR ''.'' # (rest @ dropWhile (\<lambda>c. \<not> IsPathSeparator c) (rev name))"
    by simp
  with f show "\<exists>a c u. rev name = a # CHR ''4'' # c # CHR ''.'' # u \<and>
        (a = CHR ''v'' \<or> a = CHR ''V'') \<and> (c = CHR ''m'' \<or> c = CHR ''M'')"
    unfolding toLower_4 toLower_m toLower_v by blast
qed

text \<open>
  The test of app.go, a suffix test on the lowered name, is the test of the
  lowered extension.
\<close>

lemma scan_test_is_video:
  "strings_HasSuffix (strings_ToLower name) ''.m4v'' \<longleftrightarrow> is_video name"
  unfolding is_video_def HasSuffix_m4v Ext_m4v ..

lemma scanFn_Entry:
  "scanFn path (Entry (FileInfo name d)) s =
     Inr (if \<not> d \<and> is_video name then s @ [path] else s)"
  by (simp add: scanFn_def scan_test_is_video)

lemma scanFn_Failed: "scanFn path (Failed info e) s = Inl e"
  by (simp add: scanFn_def)

lemma lookup_File: "lookup (File c) L = Some m \<longleftrightarrow> L = [] \<and> m = File c"
  by (cases L) auto

lemma path_below_Nil [simp]: "path_below path [] = path"
  by (simp add: path_below_def)

lemma path_below_Cons: "path_below path (k # L) = path_below (filepath_Join [path, k]) L"
  by (simp add: path_below_def)

lemma found_below_File:
  "found_below path name (File c) = (if is_video name then {path} else {})"
proof (cases "is_video name")
  case True
  have "p \<in> found_below path name (File c) \<longleftrightarrow> p = path" for p
    unfolding found_below_def lookup_File using True by simp
  then show ?thesis using True by auto
next
  case False
  have "p \<notin> found_below path name (File c)" for p
    unfolding found_below_def lookup_File using False by simp
  then show ?thesis using False by auto
qed

lemma found_in_Nil: "found_in path es [] = {}"
  by (simp add: found_in_def)

lemma found_in_Cons:
  "found_in path es (n # ns) =
     (case map_of es n of None \<Rightarrow> {} | Some c \<Rightarrow> found_below (filepath_Join [path, n]) n c)
     \<union> found_in path es ns"
  by (simp add: found_in_def)

lemma found_below_Dir:
  "found_below path name (Dir r w x es) = found_in path es (sort (remdups (map fst es)))"
proof -
  have k: "map_of es k = Some m \<Longrightarrow> k \<in> set (sort (remdups (map fst es)))" for k m
    using map_of_SomeD [of es k m] by (simp add: image_iff) (metis fst_conv)
  show ?thesis
  proof (rule set_eqI, rule iffI)
    fix p assume "p \<in> found_below path name (Dir r w x es)"
    then obtain L c where p: "p = path_below path L" and l: "lookup (Dir r w x es) L = Some (File c)"
      and v: "is_video (if L = [] then name else last L)"
      unfolding found_below_def by blast
    from l obtain k L' where L: "L = k # L'" by (cases L) auto
    with l obtain m where m: "map_of es k = Some m" "lookup m L' = Some (File c)"
      by (cases "map_of es k") auto
    from v L have "is_video (if L' = [] then k else last L')" by simp
    moreover from p L have "p = path_below (filepath_Join [path, k]) L'"
      by (simp add: path_below_Cons)
    ultimately have "p \<in> found_below (filepath_Join [path, k]) k m"
      unfolding found_below_def using m(2) by blast
    with k [OF m(1)] m(1) show "p \<in> found_in path es (sort (remdups (map fst es)))"
      unfolding found_in_def by (intro UN_I [where a = k]) simp_all
  next
    fix p assume "p \<in> found_in path es (sort (remdups (map fst es)))"
    then obtain k where "p \<in> (case map_of es k of None \<Rightarrow> {}
        | Some m \<Rightarrow> found_below (filepath_Join [path, k]) k m)"
      unfolding found_in_def by blast
    then obtain m where m: "map_of es k = Some m" and "p \<in> found_below (filepath_Join [path, k]) k m"
      by (cases "map_of es k") auto
    then obtain L c where p: "p = path_below (filepath_Join [path, k]) L"
      and l: "lookup m L = Some (File c)" and v: "is_video (if L = [] then k else last L)"
      unfolding found_below_def by blast
    from m l have "lookup (Dir r w x es) (k # L) = Some (File c)" by simp
    moreover from v have "is_video (if k # L = [] then name else last (k # L))" by simp
    moreover from p have "p = path_below path (k # L)" by (simp add: path_below_Cons)
    ultimately show "p \<in> found_below path name (Dir r w x es)"
      unfolding found_below_def by blast
  qed
qed

lemma walk_scan_found:
  "fn = scanFn \<Longrightarrow> walk fn path name n s = Inr s' \<Longrightarrow> set s' = set s \<union> found_below path name n"
  "fn = scanFn \<Longrightarrow> walk_names fn path x es ns s = Inr s' \<Longrightarrow> set s' = set s \<union> found_in path es ns"
proof (induction fn path name n s and fn path x es ns s arbitrary: s' and s'
    rule: walk_walk_names.induct)
  case (1 fn path name c s)
  then show ?case by (auto simp: scanFn_Entry found_below_File split: if_splits)
next
  case (2 fn path name r w x es s)
  from "2.prems" have r: r
    by (auto simp: scanFn_Failed split: if_splits)
  have e: "fn path (Entry (FileInfo name True)) s = Inr s"
    using "2.prems"(1) by (simp add: scanFn_Entry)
  with "2.prems" r have "walk_names fn path x es (sort (remdups (map fst es))) s = Inr s'"
    by simp
  with "2.IH" [OF _ e "2.prems"(1)] r have "set s' = set s \<union> found_in path es (sort (remdups (map fst es)))"
    by simp
  then show ?case by (simp add: found_below_Dir)
next
  case (3 fn path x es s)
  then show ?case by (simp add: found_in_Nil)
next
  case (4 fn path x es n ns s)
  let ?filename = "filepath_Join [path, n]"
  from "4.prems" have x: x
    by (auto simp: scanFn_Failed Let_def split: if_splits)
  with "4.prems" obtain c where c: "map_of es n = Some c"
    by (cases "map_of es n") (auto simp: scanFn_Failed Let_def)
  with "4.prems" x obtain s1 where w1: "walk fn ?filename n c s = Inr s1"
    and w2: "walk_names fn path x es ns s1 = Inr s'"
    by (cases "walk fn ?filename n c s") (auto simp: Let_def)
  from x have nx: "\<not> \<not> x" by simp
  have "set s1 = set s \<union> found_below ?filename n c"
    using "4.IH"(3) [OF refl nx c "4.prems"(1) w1] .
  moreover have "set s' = set s1 \<union> found_in path es ns"
    using "4.IH"(4) [OF refl nx c w1 "4.prems"(1) w2] .
  ultimately show ?case using c by (auto simp: found_in_Cons)
qed

lemma unreadable_File: "\<not> unreadable (File c)"
proof -
  have "stat_at (File c) loc \<noteq> Some (KDir False w x)" for loc w x
    by (cases loc) (simp_all add: stat_at_Cons)
  then show ?thesis unfolding unreadable_def by blast
qed

lemma unreadable_Dir:
  "unreadable (Dir True w x es) \<Longrightarrow> \<exists>k m. map_of es k = Some m \<and> unreadable m"
proof -
  assume "unreadable (Dir True w x es)"
  then obtain loc w' x' where s: "stat_at (Dir True w x es) loc = Some (KDir False w' x')"
    unfolding unreadable_def by blast
  then obtain k loc' where l: "loc = k # loc'" by (cases loc) auto
  with s obtain m where "map_of es k = Some m" "stat_at m loc' = Some (KDir False w' x')"
    by (cases "map_of es k") (auto simp: stat_at_Cons)
  then show ?thesis unfolding unreadable_def by blast
qed

lemma map_of_in_names:
  "map_of es k = Some m \<Longrightarrow> k \<in> set (sort (remdups (map fst es)))"
  using map_of_SomeD [of es k m] by (simp add: image_iff) (metis fst_conv)

lemma walk_scan_unreadable:
  "fn = scanFn \<Longrightarrow> unreadable n \<Longrightarrow> \<exists>e. walk fn path name n s = Inl e"
  "fn = scanFn \<Longrightarrow> \<exists>k \<in> set ns. \<exists>m. map_of es k = Some m \<and> unreadable m \<Longrightarrow>
     \<exists>e. walk_names fn path x es ns s = Inl e"
proof (induction fn path name n s and fn path x es ns s rule: walk_walk_names.induct)
  case (1 fn path name c s)
  then show ?case by (simp add: unreadable_File)
next
  case (2 fn path name r w x es s)
  show ?case
  proof (cases r)
    case False
    with "2.prems" show ?thesis by (simp add: scanFn_Failed)
  next
    case True
    have e: "fn path (Entry (FileInfo name True)) s = Inr s"
      using "2.prems"(1) by (simp add: scanFn_Entry)
    from "2.prems"(2) True have "unreadable (Dir True w x es)" by simp
    from unreadable_Dir [OF this] obtain k m where km: "map_of es k = Some m" "unreadable m"
      by blast
    with map_of_in_names [OF km(1)]
    have "\<exists>k \<in> set (sort (remdups (map fst es))). \<exists>m. map_of es k = Some m \<and> unreadable m"
      by blast
    from "2.IH" [OF _ e "2.prems"(1) this] True e show ?thesis by simp
  qed
next
  case (3 fn path x es s)
  then show ?case by simp
next
  case (4 fn path x es n ns s)
  let ?filename = "filepath_Join [path, n]"
  show ?case
  proof (cases x)
    case False
    with "4.prems" show ?thesis by (simp add: scanFn_Failed Let_def)
  next
    case True
    then have nx: "\<not> \<not> x" by simp
    show ?thesis
    proof (cases "map_of es n")
      case None
      with True "4.prems" show ?thesis by (simp add: scanFn_Failed Let_def)
    next
      case (Some c)
      show ?thesis
      proof (cases "walk fn ?filename n c s")
        case (Inl e)
        with True Some show ?thesis by (simp add: Let_def)
      next
        case (Inr s1)
        have "\<not> unreadable c"
          using "4.IH"(3) [OF refl nx Some "4.prems"(1)] Inr by auto
        with "4.prems"(2) Some have "\<exists>k \<in> set ns. \<exists>m. map_of es k = Some m \<and> unreadable m"
          by auto
        from "4.IH"(4) [OF refl nx Some Inr "4.prems"(1) this] True Some Inr
        show ?thesis by (simp add: Let_def)
      qed
    qed
  qed
qed

lemma accessible_child:
  "accessible (Dir r w x es) \<Longrightarrow> map_of es k = Some m \<Longrightarrow> accessible m"
  unfolding accessible_def
proof (intro allI impI)
  fix loc r' w' x'
  assume a: "\<forall>loc r' w' x'. stat_at (Dir r w x es) loc = Some (KDir r' w' x') \<longrightarrow> r' \<and> x'"
    and m: "map_of es k = Some m" and s: "stat_at m loc = Some (KDir r' w' x')"
  from m s have "stat_at (Dir r w x es) (k # loc) = Some (KDir r' w' x')"
    by (simp add: stat_at_Cons)
  with a show "r' \<and> x'" by blast
qed

lemma accessible_Dir: "accessible (Dir r w x es) \<Longrightarrow> r \<and> x"
  unfolding accessible_def using stat_at_Nil [of "Dir r w x es"] by (metis kind_of.simps(2))

lemma walk_scan_accessible:
  "fn = scanFn \<Longrightarrow> accessible n \<Longrightarrow> \<exists>s'. walk fn path name n s = Inr s'"
  "fn = scanFn \<Longrightarrow> x \<Longrightarrow> \<forall>k m. map_of es k = Some m \<longrightarrow> accessible m \<Longrightarrow>
     \<forall>k \<in> set ns. map_of es k \<noteq> None \<Longrightarrow> \<exists>s'. walk_names fn path x es ns s = Inr s'"
proof (induction fn path name n s and fn path x es ns s rule: walk_walk_names.induct)
  case (1 fn path name c s)
  then show ?case by (simp add: scanFn_Entry)
next
  case (2 fn path name r w x es s)
  from accessible_Dir [OF "2.prems"(2)] have rx: r x by simp_all
  have e: "fn path (Entry (FileInfo name True)) s = Inr s"
    using "2.prems"(1) by (simp add: scanFn_Entry)
  have c: "\<forall>k m. map_of es k = Some m \<longrightarrow> accessible m"
    using accessible_child [OF "2.prems"(2)] by blast
  have d: "\<forall>k \<in> set (sort (remdups (map fst es))). map_of es k \<noteq> None"
    by (auto simp: map_of_eq_None_iff)
  from rx(1) have nr: "\<not> \<not> r" by simp
  from "2.IH" [OF nr e "2.prems"(1) rx(2) c d] rx e show ?case by simp
next
  case (3 fn path x es s)
  then show ?case by simp
next
  case (4 fn path x es n ns s)
  let ?filename = "filepath_Join [path, n]"
  from "4.prems"(2) have nx: "\<not> \<not> x" by simp
  from "4.prems"(4) obtain c where c: "map_of es n = Some c" by auto
  with "4.prems"(3) have ac: "accessible c" by blast
  from "4.IH"(3) [OF refl nx c "4.prems"(1) ac] obtain s1
    where s1: "walk fn ?filename n c s = Inr s1" by blast
  from "4.prems"(4) have r: "\<forall>k \<in> set ns. map_of es k \<noteq> None" by simp
  from "4.IH"(4) [OF refl nx c s1 "4.prems"(1) "4.prems"(2) "4.prems"(3) r]
  show ?case using "4.prems"(2) c s1 by (simp add: Let_def)
qed

lemma all_open_accessible:
  assumes "all_open n"
  shows "accessible n"
proof -
  have "all_open n \<Longrightarrow> stat_at n loc = Some (KDir r w x) \<Longrightarrow> r \<and> x" for loc r w x
  proof (induction loc arbitrary: n)
    case Nil
    then show ?case by (cases n) auto
  next
    case (Cons k loc)
    from Cons.prems(2) obtain r' w' x' es m where n: "n = Dir r' w' x' es"
      and m: "map_of es k = Some m" and s: "stat_at m loc = Some (KDir r w x)"
      by (cases n; cases "child n k") (auto simp: stat_at_Cons)
    from m have "(k, m) \<in> set es" by (rule map_of_SomeD)
    with Cons.prems(1) n have "all_open m" by auto
    from Cons.IH [OF this s] show ?case .
  qed
  with assms show ?thesis unfolding accessible_def by blast
qed

lemma videos_below_found: "videos_below root n = found_below root (filepath_Base root) n"
  by (simp add: videos_below_def found_below_def name_at_def)

lemma SelectDirectory_walk:
  assumes "selectedDir \<noteq> []" "resolve root_fs selectedDir = Inr loc" "lookup root_fs loc = Some n"
  shows "SelectDirectory (Inr selectedDir) root_fs =
     (case walk scanFn selectedDir (filepath_Base selectedDir) n [] of
        Inl err \<Rightarrow> ([], Some (ScanError err))
      | Inr videoFiles \<Rightarrow> (videoFiles, None))"
  using assms by (simp add: SelectDirectory_def filepath_Walk_def)

text \<open>Below an absolute path the walk builds absolute paths.\<close>

lemma Clean_IsAbs: "filepath_IsAbs path \<Longrightarrow> filepath_IsAbs (filepath_Clean path)"
  by (simp add: filepath_IsAbs_def filepath_Clean_def Let_def IsPathSeparator_def)

lemma Join_IsAbs: "filepath_IsAbs path \<Longrightarrow> filepath_IsAbs (filepath_Join [path, n])"
  using Clean_IsAbs [of "path @ ''/'' @ n"] by (simp add: filepath_IsAbs_def)

lemma path_below_IsAbs: "filepath_IsAbs path \<Longrightarrow> filepath_IsAbs (path_below path loc)"
proof (induction loc arbitrary: path)
  case Nil
  then show ?case by simp
next
  case (Cons k loc)
  from Cons.IH [OF Join_IsAbs [OF Cons.prems, of k]] show ?case
    unfolding path_below_Cons .
qed

lemma videos_below_IsAbs:
  "filepath_IsAbs selectedDir \<Longrightarrow> p \<in> videos_below selectedDir n \<Longrightarrow> filepath_IsAbs p"
  unfolding videos_below_def using path_below_IsAbs by blast

text \<open>
  C6.  Let the selected directory exist.  Whenever the scan returns without an
  error, the paths it returns are exactly the paths of the files below the selected
  directory whose extension, lowered, is \<^verbatim>\<open>.m4v\<close>: every such file and no other
  file or directory; they are absolute paths when the selected directory is given
  by one.  When every directory of the tree can be listed and searched, the scan
  does return without an error; and when moreover no file matches, it returns the
  empty sequence and no error.
\<close>

theorem SelectDirectory_returns_videos:
  assumes "selectedDir \<noteq> []"
    and "resolve root_fs selectedDir = Inr loc"
    and "lookup root_fs loc = Some n"
  shows "(\<forall>files. SelectDirectory (Inr selectedDir) root_fs = (files, None) \<longrightarrow>
            set files = videos_below selectedDir n) \<and>
         (filepath_IsAbs selectedDir \<longrightarrow>
            (\<forall>p \<in> videos_below selectedDir n. filepath_IsAbs p)) \<and>
         (accessible n \<longrightarrow>
            (\<exists>files. SelectDirectory (Inr selectedDir) root_fs = (files, None) \<and>
               set files = videos_below selectedDir n)) \<and>
         (accessible n \<and> videos_below selectedDir n = {} \<longrightarrow>
            SelectDirectory (Inr selectedDir) root_fs = ([], None))"
proof -
  let ?w = "walk scanFn selectedDir (filepath_Base selectedDir) n []"
  note sd = SelectDirectory_walk [OF assms]
  have a: "set files = videos_below selectedDir n"
    if "SelectDirectory (Inr selectedDir) root_fs = (files, None)" for files
  proof -
    from that sd have "?w = Inr files" by (cases ?w) auto
    from walk_scan_found(1) [OF refl this] show ?thesis
      by (simp add: videos_below_found)
  qed
  have b: "\<exists>files. SelectDirectory (Inr selectedDir) root_fs = (files, None)" if "accessible n"
  proof -
    from walk_scan_accessible(1) [OF refl that] obtain files where "?w = Inr files" by blast
    with sd show ?thesis by simp
  qed
  have c: "SelectDirectory (Inr selectedDir) root_fs = ([], None)"
    if "accessible n" "videos_below selectedDir n = {}"
  proof -
    from b [OF that(1)] obtain files
      where f: "SelectDirectory (Inr selectedDir) root_fs = (files, None)" by blast
    with a that(2) have "files = []" by simp
    with f show ?thesis by simp
  qed
  have d: "filepath_IsAbs p" if "filepath_IsAbs selectedDir" "p \<in> videos_below selectedDir n" for p
    using that by (rule videos_below_IsAbs)
  from a b c d show ?thesis by blast
qed

theorem SelectDirectory_returns_videos_witness:
  "''/videos'' \<noteq> [] \<and> resolve videos_fs ''/videos'' = Inr [''videos''] \<and>
   filepath_IsAbs ''/videos'' \<and>
   lookup videos_fs [''videos''] = Some videos_dir \<and> accessible videos_dir \<and>
   SelectDirectory (Inr ''/videos'') videos_fs =
     ([''/videos/a.m4v'', ''/videos/b.M4V'', ''/videos/sub/c.m4v''], None) \<and>
   videos_below ''/videos'' videos_dir =
     {''/videos/a.m4v'', ''/videos/b.M4V'', ''/videos/sub/c.m4v''} \<and>
   resolve videos_fs ''/videos/empty'' = Inr [''videos'', ''empty''] \<and>
   lookup videos_fs [''videos'', ''empty''] = Some (Dir True True True [(''readme'', File 6)]) \<and>
   videos_below ''/videos/empty'' (Dir True True True [(''readme'', File 6)]) = {} \<and>
   SelectDirectory (Inr ''/videos/empty'') videos_fs = ([], None)"
proof -
  have h1: "''/videos'' \<noteq> []" by simp
  have h2: "resolve videos_fs ''/videos'' = Inr [''videos'']" by code_simp
  have h3: "lookup videos_fs [''videos''] = Some videos_dir" by code_simp
  have "all_open videos_dir" by code_simp
  then have h4: "accessible videos_dir" by (rule all_open_accessible)
  have r: "SelectDirectory (Inr ''/videos'') videos_fs =
     ([''/videos/a.m4v'', ''/videos/b.M4V'', ''/videos/sub/c.m4v''], None)"
    by code_simp
  note t = SelectDirectory_returns_videos [OF h1 h2 h3]
  from t r have v: "videos_below ''/videos'' videos_dir =
     {''/videos/a.m4v'', ''/videos/b.M4V'', ''/videos/sub/c.m4v''}"
    by auto
  let ?e = "Dir True True True [(''readme'', File 6)]"
  have e1: "''/videos/empty'' \<noteq> []" by simp
  have e2: "resolve videos_fs ''/videos/empty'' = Inr [''videos'', ''empty'']" by code_simp
  have e3: "lookup videos_fs [''videos'', ''empty''] = Some ?e" by code_simp
  have "all_open ?e" by code_simp
  then have e4: "accessible ?e" by (rule all_open_accessible)
  have er: "SelectDirectory (Inr ''/videos/empty'') videos_fs = ([], None)" by code_simp
  note te = SelectDirectory_returns_videos [OF e1 e2 e3]
  from te er have ev: "videos_below ''/videos/empty'' ?e = {}" by auto
  have ab: "filepath_IsAbs ''/videos''"
    by (simp add: filepath_IsAbs_def IsPathSeparator_def)
  from h1 h2 h3 h4 r v e2 e3 ev er ab show ?thesis by blast
qed

text \<open>
  C7.  When some directory at or below the selected directory cannot be read, the
  scan returns an error of the file system and an empty list: the files that matched
  before the error are not returned.
\<close>

theorem SelectDirectory_unreadable_directory:
  assumes "selectedDir \<noteq> []"
    and "resolve root_fs selectedDir = Inr loc"
    and "lookup root_fs loc = Some n"
    and "unreadable n"
  shows "\<exists>e. SelectDirectory (Inr selectedDir) root_fs = ([], Some (ScanError e))"
proof -
  from walk_scan_unreadable(1) [OF refl assms(4)] obtain e
    where "walk scanFn selectedDir (filepath_Base selectedDir) n [] = Inl e" by blast
  with SelectDirectory_walk [OF assms(1-3)] show ?thesis by simp
qed

theorem SelectDirectory_unreadable_directory_witness:
  "''/videos'' \<noteq> [] \<and> resolve locked_fs ''/videos'' = Inr [''videos''] \<and>
   lookup locked_fs [''videos''] = Some locked_dir \<and> unreadable locked_dir \<and>
   (\<exists>e. SelectDirectory (Inr ''/videos'') locked_fs = ([], Some (ScanError e))) \<and>
   SelectDirectory (Inr ''/videos'') locked_fs = ([], Some (ScanError EACCES)) \<and>
   SelectDirectory (Inr ''/videos/sub'') locked_fs = ([''/videos/sub/c.m4v''], None)"
proof -
  have h1: "''/videos'' \<noteq> []" by simp
  have h2: "resolve locked_fs ''/videos'' = Inr [''videos'']" by code_simp
  have h3: "lookup locked_fs [''videos''] = Some locked_dir" by code_simp
  have "stat_at locked_dir [''z''] = Some (KDir False True True)" by code_simp
  then have h4: "unreadable locked_dir" unfolding unreadable_def by blast
  have r: "SelectDirectory (Inr ''/videos'') locked_fs = ([], Some (ScanError EACCES))"
      "SelectDirectory (Inr ''/videos/sub'') locked_fs = ([''/videos/sub/c.m4v''], None)"
    by code_simp+
  from SelectDirectory_unreadable_directory [OF h1 h2 h3 h4] h1 h2 h3 h4 r
  show ?thesis by blast
qed

section \<open>GenerateThumbnail: errors and result\<close>

text \<open>
  C8 (as amended).  GenerateThumbnail runs the tool once, with the fixed command
  line.  It returns an error in exactly two cases: the run fails (the tool cannot
  be started, exits with a status that is not zero, or its output cannot be
  copied), and the error carries the error of the run and the captured standard
  error; or the run succeeds and no byte was written, and the error is the no-data
  error, which differs from every error of the first kind.  Otherwise it returns
  the captured bytes, base64-encoded, as a JPEG data URL.
\<close>

theorem GenerateThumbnail_outcomes:
  "(let res = exec (ffmpeg_command videoPath);
        result = fst (GenerateThumbnail exec videoPath)
    in snd (GenerateThumbnail exec videoPath) = [ffmpeg_command videoPath] \<and>
       (snd result = None \<longleftrightarrow> run_err res = None \<and> outb res \<noteq> []) \<and>
       (case run_err res of
          Some err \<Rightarrow> result = ([], Some (ExecutionFailed videoPath err (errb res)))
        | None \<Rightarrow>
            if outb res = [] then result = ([], Some (NoThumbnailData videoPath))
            else result = (''data:image/jpeg;base64,'' @ EncodeToString (outb res), None))) \<and>
   (\<forall>err diag. NoThumbnailData videoPath \<noteq> ExecutionFailed videoPath err diag)"
  by (simp add: GenerateThumbnail_def Let_def split: option.split)

text \<open>
  C8 (as stated) fails: when the tool cannot be started, GenerateThumbnail returns
  an error although the tool neither exited with a status other than zero nor
  exited with status zero.
\<close>

theorem GenerateThumbnail_start_failure_counterexample:
  "fst (GenerateThumbnail ffmpeg_missing ''/v/a.m4v'') =
     ([], Some (ExecutionFailed ''/v/a.m4v'' StartFailed [])) \<and>
   \<not> claimed_failure (ffmpeg_missing (ffmpeg_command ''/v/a.m4v''))"
  by (simp add: GenerateThumbnail_def ffmpeg_missing_def claimed_failure_def)

text \<open>A run that succeeds with three bytes of output.\<close>

lemma GenerateThumbnail_example:
  "GenerateThumbnail (\<lambda>cmd. \<lparr>run_err = None, outb = [255, 216, 255], errb = []\<rparr>) ''/v/a.m4v'' =
     ((''data:image/jpeg;base64,/9j/'', None),
      [[''ffmpeg'', ''-i'', ''/v/a.m4v'', ''-ss'', ''00:00:01'', ''-vframes'', ''1'',
        ''-f'', ''image2pipe'', ''-c:v'', ''mjpeg'', ''-'']])"
  by code_simp

section \<open>Splitting and joining paths\<close>

lemma genSplit_slash_sep:
  "genSplit ''/'' acc (CHR ''/'' # cs) = rev acc # genSplit ''/'' [] cs"
  by simp

lemma genSplit_slash_other:
  "c \<noteq> CHR ''/'' \<Longrightarrow> genSplit ''/'' acc (c # cs) = genSplit ''/'' (c # acc) cs"
  by auto

lemma genSplit_slash_append:
  "genSplit ''/'' acc (a @ CHR ''/'' # b) = genSplit ''/'' acc a @ genSplit ''/'' [] b"
proof (induction a arbitrary: acc)
  case Nil
  show ?case by (simp only: append_Nil genSplit_slash_sep genSplit.simps(1) append_Cons)
next
  case (Cons c a)
  show ?case
  proof (cases "c = CHR ''/''")
    case True
    then show ?thesis
      by (simp only: append_Cons genSplit_slash_sep Cons.IH)
  next
    case False
    then show ?thesis
      by (simp only: append_Cons genSplit_slash_other [OF False] Cons.IH)
  qed
qed

lemma genSplit_no_slash:
  "CHR ''/'' \<notin> set s \<Longrightarrow> genSplit ''/'' acc s = [rev acc @ s]"
proof (induction s arbitrary: acc)
  case Nil
  show ?case by simp
next
  case (Cons c s)
  then have c: "c \<noteq> CHR ''/''" and s: "CHR ''/'' \<notin> set s" by auto
  show ?case
    by (simp only: genSplit_slash_other [OF c] Cons.IH [OF s]) simp
qed

lemma Split_slash_append:
  "strings_Split (a @ CHR ''/'' # b) ''/'' = strings_Split a ''/'' @ strings_Split b ''/''"
  by (simp only: strings_Split_def genSplit_slash_append)

lemma Split_no_slash:
  "CHR ''/'' \<notin> set s \<Longrightarrow> strings_Split s ''/'' = [s]"
  by (simp add: strings_Split_def genSplit_no_slash)

lemma genSplit_elems_no_slash:
  "CHR ''/'' \<notin> set acc \<Longrightarrow> e \<in> set (genSplit ''/'' acc s) \<Longrightarrow> CHR ''/'' \<notin> set e"
proof (induction s arbitrary: acc)
  case Nil
  then show ?case by simp
next
  case (Cons c s)
  show ?case
  proof (cases "c = CHR ''/''")
    case True
    with Cons.prems(2) have "e = rev acc \<or> e \<in> set (genSplit ''/'' [] s)"
      by (simp only: genSplit_slash_sep set_simps insert_iff)
    then show ?thesis
    proof
      assume "e = rev acc"
      with Cons.prems(1) show ?thesis by simp
    next
      assume "e \<in> set (genSplit ''/'' [] s)"
      then show ?thesis by (intro Cons.IH [of "[]"]) simp_all
    qed
  next
    case False
    with Cons.prems(2) have "e \<in> set (genSplit ''/'' (c # acc) s)"
      by (simp only: genSplit_slash_other [OF False])
    moreover from False Cons.prems(1) have "CHR ''/'' \<notin> set (c # acc)" by auto
    ultimately show ?thesis by (intro Cons.IH [of "c # acc"])
  qed
qed

lemma Split_elems_no_slash:
  "e \<in> set (strings_Split s ''/'') \<Longrightarrow> CHR ''/'' \<notin> set e"
  unfolding strings_Split_def using genSplit_elems_no_slash [of "[]" e s] by simp

lemma Split_Join:
  "xs \<noteq> [] \<Longrightarrow> \<forall>e \<in> set xs. CHR ''/'' \<notin> set e \<Longrightarrow>
   strings_Split (strings_Join xs ''/'') ''/'' = xs"
proof (induction xs)
  case Nil
  then show ?case by simp
next
  case (Cons x xs)
  from Cons.prems(2) have x: "CHR ''/'' \<notin> set x" by simp
  show ?case
  proof (cases xs)
    case Nil
    with x show ?thesis by (simp add: Split_no_slash)
  next
    case (Cons y ys)
    with Cons.IH Cons.prems(2) have "strings_Split (strings_Join (y # ys) ''/'') ''/'' = y # ys"
      by simp
    with Cons x show ?thesis
      by (simp add: Split_slash_append Split_no_slash)
  qed
qed

lemma takeWhile_stop: "\<not> P y \<Longrightarrow> takeWhile P (xs @ y # ys) = takeWhile P xs"
  by (induction xs) auto

lemma last_genSplit:
  "CHR ''/'' \<notin> set acc \<Longrightarrow>
   last (genSplit ''/'' acc s) = rev (takeWhile (\<lambda>c. c \<noteq> CHR ''/'') (rev s @ acc))"
proof (induction s arbitrary: acc)
  case Nil
  then have "\<forall>x \<in> set acc. x \<noteq> CHR ''/''" by auto
  then have "takeWhile (\<lambda>c. c \<noteq> CHR ''/'') acc = acc"
    by (simp only: takeWhile_eq_all_conv)
  then show ?case
    by (simp only: genSplit.simps last.simps rev.simps append_Nil) simp
next
  case (Cons c cs)
  show ?case
  proof (cases "c = CHR ''/''")
    case True
    have "takeWhile (\<lambda>c. c \<noteq> CHR ''/'') (rev cs @ CHR ''/'' # acc) =
        takeWhile (\<lambda>c. c \<noteq> CHR ''/'') (rev cs)"
      by (rule takeWhile_stop) simp
    moreover have "last (genSplit ''/'' acc (c # cs)) = last (genSplit ''/'' [] cs)"
      unfolding True genSplit_slash_sep by (simp add: genSplit_not_Nil)
    moreover have "last (genSplit ''/'' [] cs) = rev (takeWhile (\<lambda>c. c \<noteq> CHR ''/'') (rev cs @ []))"
      by (intro Cons.IH) simp
    ultimately show ?thesis using True by simp
  next
    case False
    with Cons.prems have "CHR ''/'' \<notin> set (c # acc)" by auto
    from Cons.IH [OF this] show ?thesis
      by (simp only: genSplit_slash_other [OF False]) simp
  qed
qed

lemma last_Split:
  "last (strings_Split p ''/'') = rev (takeWhile (\<lambda>c. c \<noteq> CHR ''/'') (rev p))"
  using last_genSplit [of "[]" p] by (simp add: strings_Split_def)

lemma Base_last_Split:
  assumes "last (strings_Split p ''/'') \<noteq> []"
  shows "filepath_Base p = last (strings_Split p ''/'')"
proof -
  from assms have t: "takeWhile (\<lambda>c. c \<noteq> CHR ''/'') (rev p) \<noteq> []"
    by (simp add: last_Split)
  then have ne: "p \<noteq> []" by auto
  from t have "hd (rev p) \<noteq> CHR ''/''"
    by (cases "rev p") (auto split: if_splits)
  with ne have "dropWhile IsPathSeparator (rev p) = rev p"
    by (cases "rev p") (auto simp: IsPathSeparator_def)
  with ne t show ?thesis
    by (simp add: filepath_Base_def last_Split IsPathSeparator_def Let_def)
qed

lemma clean_elems_snoc:
  "name \<noteq> [] \<Longrightarrow> name \<noteq> ''.'' \<Longrightarrow> name \<noteq> ''..'' \<Longrightarrow>
   clean_elems rooted acc (es @ [name]) = clean_elems rooted acc es @ [name]"
  by (induction rooted acc es rule: clean_elems.induct) auto

section \<open>Path resolution and cleaned paths\<close>

lemma namei_Cons_xdir:
  "xdir root cur \<Longrightarrow>
   namei root cur (e # es) =
     namei root (if e = [] \<or> e = ''.'' then cur else if e = ''..'' then butlast cur else cur @ [e]) es"
  unfolding xdir_def by (auto simp del: butlast.simps)

lemma namei_Cons_Inr:
  "namei root cur (e # es) = Inr D \<Longrightarrow>
   xdir root cur \<and>
   namei root (if e = [] \<or> e = ''.'' then cur else if e = ''..'' then butlast cur else cur @ [e]) es = Inr D"
  unfolding xdir_def by (auto split: option.splits kind.splits if_splits)

lemma namei_append:
  "namei root cur (es1 @ es2) =
     (case namei root cur es1 of Inl e \<Rightarrow> Inl e | Inr L \<Rightarrow> namei root L es2)"
  by (induction es1 arbitrary: cur) (auto split: option.splits kind.splits)

lemma namei_mono:
  "namei f cur es = Inr L \<Longrightarrow> \<forall>M. xdir f M \<longrightarrow> xdir f' M \<Longrightarrow> namei f' cur es = Inr L"
proof (induction es arbitrary: cur)
  case Nil
  then show ?case by simp
next
  case (Cons e es)
  from namei_Cons_Inr [OF Cons.prems(1)] have x: "xdir f cur"
    and n: "namei f (if e = [] \<or> e = ''.'' then cur else if e = ''..'' then butlast cur else cur @ [e]) es = Inr L"
    by simp_all
  from x Cons.prems(2) have "xdir f' cur" by blast
  from namei_Cons_xdir [OF this] Cons.IH [OF n Cons.prems(2)] show ?case by simp
qed

lemma parent_is_dir:
  "stat_at root (M @ [k]) \<noteq> None \<Longrightarrow> \<exists>r w x. stat_at root M = Some (KDir r w x)"
proof -
  assume a: "stat_at root (M @ [k]) \<noteq> None"
  then obtain m where m: "lookup root M = Some m" and c: "child m k \<noteq> None"
    by (cases "lookup root M"; cases "child (the (lookup root M)) k")
       (auto simp: stat_at_def lookup_append)
  from c obtain r w x es where "m = Dir r w x es" by (cases m) auto
  with m show ?thesis by (simp add: stat_at_def)
qed

lemma set_clean_elems:
  "x \<in> set (clean_elems rooted st es) \<Longrightarrow> x \<in> set st \<or> x \<in> set es \<or> x = ''..''"
  by (induction rooted st es rule: clean_elems.induct)
     (auto split: if_splits dest: list.set_sel(2))

text \<open>
  A path that the kernel resolves leads to the same location after
  \<^verbatim>\<open>filepath.Clean\<close>: the walk over the cleaned elements, from the root, ends
  where the walk over the given elements ends.
\<close>

lemma namei_clean:
  assumes "namei root cur es = Inr D"
    and "namei root [] (pre @ rev st) = Inr cur"
    and "namei root [] pre = Inr []"
    and "\<forall>e \<in> set st. e \<noteq> [] \<and> e \<noteq> ''.''"
    and "rooted \<longrightarrow> ''..'' \<notin> set st"
  shows "namei root [] (pre @ clean_elems rooted st es) = Inr D"
  using assms
proof (induction es arbitrary: cur st)
  case Nil
  then show ?case by simp
next
  case (Cons e es)
  let ?cur' = "if e = [] \<or> e = ''.'' then cur else if e = ''..'' then butlast cur else cur @ [e]"
  from namei_Cons_Inr [OF Cons.prems(1)] have x: "xdir root cur"
    and n: "namei root ?cur' es = Inr D"
    by simp_all
  consider (skip) "e = [] \<or> e = ''.''"
    | (pop) "e = ''..''" "st \<noteq> []" "hd st \<noteq> ''..''"
    | (keep) "e = ''..''" "st = [] \<or> hd st = ''..''" "\<not> rooted"
    | (drop) "e = ''..''" "st = [] \<or> hd st = ''..''" "rooted"
    | (push) "e \<noteq> []" "e \<noteq> ''.''" "e \<noteq> ''..''"
    by blast
  then show ?case
  proof cases
    case skip
    with n have "namei root cur es = Inr D" by auto
    from Cons.IH [OF this Cons.prems(2-5)] skip show ?thesis by auto
  next
    case pop
    then obtain k st' where st: "st = k # st'" by (cases st) auto
    with pop Cons.prems(4) have k: "k \<noteq> []" "k \<noteq> ''.''" "k \<noteq> ''..''" by auto
    from Cons.prems(2) st have "namei root [] ((pre @ rev st') @ [k]) = Inr cur" by simp
    then obtain c0 where c0: "namei root [] (pre @ rev st') = Inr c0"
      and s: "namei root c0 [k] = Inr cur"
      unfolding namei_append [of root "[]" "pre @ rev st'" "[k]"]
      by (cases "namei root [] (pre @ rev st')") auto
    from namei_Cons_Inr [OF s] k have "cur = c0 @ [k]" by simp
    with n pop have n': "namei root c0 es = Inr D" by simp
    from Cons.prems(4,5) st have "\<forall>e \<in> set st'. e \<noteq> [] \<and> e \<noteq> ''.''" "rooted \<longrightarrow> ''..'' \<notin> set st'"
      by auto
    from Cons.IH [OF n' c0 Cons.prems(3) this] pop st show ?thesis by simp
  next
    case keep
    from n keep have n': "namei root (butlast cur) es = Inr D" by simp
    have "namei root [] ((pre @ rev st) @ [''..'']) = Inr (butlast cur)"
      unfolding namei_append [of root "[]" "pre @ rev st" "[''..'']"]
      using Cons.prems(2) namei_Cons_xdir [OF x, of "''..''" "[]"] by simp
    then have j: "namei root [] (pre @ rev (''..'' # st)) = Inr (butlast cur)" by simp
    from Cons.prems(4) have i: "\<forall>e \<in> set (''..'' # st). e \<noteq> [] \<and> e \<noteq> ''.''" by simp
    from keep have ii: "rooted \<longrightarrow> ''..'' \<notin> set (''..'' # st)" by simp
    from Cons.IH [OF n' j Cons.prems(3) i ii] keep show ?thesis by auto
  next
    case drop
    with Cons.prems(5) have st: "st = []" by (cases st) auto
    with Cons.prems(2,3) have "cur = []" by simp
    with n drop have n': "namei root cur es = Inr D" by simp
    from Cons.IH [OF n' Cons.prems(2-5)] drop st show ?thesis by simp
  next
    case push
    from n push have n': "namei root (cur @ [e]) es = Inr D" by simp
    have "namei root [] ((pre @ rev st) @ [e]) = Inr (cur @ [e])"
      unfolding namei_append [of root "[]" "pre @ rev st" "[e]"]
      using Cons.prems(2) namei_Cons_xdir [OF x, of e "[]"] push by simp
    then have j: "namei root [] (pre @ rev (e # st)) = Inr (cur @ [e])" by simp
    from Cons.prems(4) push have i: "\<forall>e' \<in> set (e # st). e' \<noteq> [] \<and> e' \<noteq> ''.''" by simp
    from Cons.prems(5) push have ii: "rooted \<longrightarrow> ''..'' \<notin> set (e # st)" by simp
    from Cons.IH [OF n' j Cons.prems(3) i ii] push show ?thesis by simp
  qed
qed

lemma Split_not_Nil: "strings_Split s sep \<noteq> []"
  by (simp add: strings_Split_def genSplit_not_Nil)

lemma Join_snoc_not_Nil: "name \<noteq> [] \<Longrightarrow> strings_Join (xs @ [name]) sep \<noteq> []"
proof (induction xs)
  case Nil
  then show ?case by simp
next
  case (Cons x xs)
  obtain y ys where e: "xs @ [name] = y # ys" by (cases "xs @ [name]") auto
  from Cons have "strings_Join (y # ys) sep \<noteq> []" unfolding e by simp
  then have "strings_Join (x # y # ys) sep \<noteq> []" by simp
  then show ?case unfolding e [symmetric] by simp
qed

text \<open>
  The joined path of a searchable directory and a plain name leads to that name in
  the directory.
\<close>

lemma resolve_Join:
  assumes out: "out \<noteq> []"
    and D: "namei root [] (strings_Split out ''/'') = Inr D"
    and x: "xdir root D"
    and name: "name \<noteq> []" "name \<noteq> ''.''" "name \<noteq> ''..''" "CHR ''/'' \<notin> set name"
  shows "resolve root (filepath_Join [out, name]) = Inr (D @ [name])"
proof -
  define s where "s = out @ CHR ''/'' # name"
  define rooted where "rooted = IsPathSeparator (hd s)"
  define pre where "pre = (if rooted then [[]] else [] :: string list)"
  define es where "es = strings_Split s ''/''"
  define cs where "cs = clean_elems rooted [] es"
  have j: "filepath_Join [out, name] = filepath_Clean s"
    using out by (simp add: s_def)
  have es: "es = strings_Split out ''/'' @ [name]"
    unfolding es_def s_def by (simp add: Split_slash_append Split_no_slash name(4))
  have cs: "cs = clean_elems rooted [] (strings_Split out ''/'') @ [name]"
    unfolding cs_def es using name(1-3) by (rule clean_elems_snoc)
  then have cs_ne: "cs \<noteq> []" by simp
  have slash_free: "\<forall>e \<in> set cs. CHR ''/'' \<notin> set e"
  proof
    fix e assume "e \<in> set cs"
    from set_clean_elems [OF this [unfolded cs_def]] have "e \<in> set es \<or> e = ''..''" by simp
    then show "CHR ''/'' \<notin> set e"
      unfolding es_def using Split_elems_no_slash [of e s] by auto
  qed
  have join_ne: "strings_Join cs ''/'' \<noteq> []"
    unfolding cs using name(1) by (rule Join_snoc_not_Nil)
  have clean: "filepath_Clean s = (if rooted then ''/'' else []) @ strings_Join cs ''/''"
  proof -
    have "s \<noteq> []" by (simp add: s_def)
    then have "filepath_Clean s =
        (let out = (if rooted then ''/'' else []) @ strings_Join cs ''/''
         in if out = [] then ''.'' else out)"
      by (simp add: filepath_Clean_def rooted_def cs_def es_def Let_def)
    with join_ne show ?thesis by (simp add: Let_def)
  qed
  have split: "strings_Split (filepath_Clean s) ''/'' = pre @ cs"
  proof (cases rooted)
    case True
    have "strings_Split ([] @ CHR ''/'' # strings_Join cs ''/'') ''/'' =
        strings_Split [] ''/'' @ strings_Split (strings_Join cs ''/'') ''/''"
      by (rule Split_slash_append)
    moreover have "strings_Split [] ''/'' = [[]]"
      by (simp add: strings_Split_def)
    ultimately show ?thesis
      unfolding clean pre_def using True by (simp add: Split_Join [OF cs_ne slash_free])
  next
    case False
    then show ?thesis
      unfolding clean pre_def by (simp add: Split_Join [OF cs_ne slash_free])
  qed
  obtain e0 es0 where s0: "strings_Split out ''/'' = e0 # es0"
    using Split_not_Nil [of out "''/''"] by (cases "strings_Split out ''/''") auto
  from namei_Cons_Inr [OF D [unfolded s0]] have x0: "xdir root []" by simp
  have P: "namei root [] pre = Inr []"
    unfolding pre_def using namei_Cons_xdir [OF x0, of "[]" "[]"] by simp
  have walk: "namei root [] es = Inr (D @ [name])"
    unfolding es namei_append using D namei_Cons_xdir [OF x, of name "[]"] name by simp
  have "namei root [] (pre @ clean_elems rooted [] es) = Inr (D @ [name])"
    by (rule namei_clean [OF walk _ P]) (simp_all add: P)
  then have "namei root [] (strings_Split (filepath_Clean s) ''/'') = Inr (D @ [name])"
    unfolding split cs_def .
  moreover have "filepath_Clean s \<noteq> []"
    unfolding clean using join_ne by simp
  ultimately show ?thesis unfolding j resolve_def by simp
qed

text \<open>
  The base name of a path that leads to a file is the last name of its location,
  a plain name.
\<close>

lemma file_path_base:
  assumes r: "resolve root p = Inr L"
    and f: "stat_at root L = Some (KFile c)"
  shows "L \<noteq> [] \<and> filepath_Base p = last L \<and> filepath_Base p \<noteq> [] \<and>
         filepath_Base p \<noteq> ''.'' \<and> filepath_Base p \<noteq> ''..'' \<and>
         CHR ''/'' \<notin> set (filepath_Base p)"
proof -
  from r have n: "namei root [] (strings_Split p ''/'') = Inr L"
    by (auto simp: resolve_def split: if_splits)
  define e where "e = last (strings_Split p ''/'')"
  define es' where "es' = butlast (strings_Split p ''/'')"
  have sp: "strings_Split p ''/'' = es' @ [e]"
    unfolding e_def es'_def using Split_not_Nil [of p "''/''"] by simp
  from n obtain cur where c: "namei root [] es' = Inr cur" and s: "namei root cur [e] = Inr L"
    unfolding sp namei_append by (cases "namei root [] es'") auto
  from namei_Cons_Inr [OF s] have x: "xdir root cur"
    and L: "L = (if e = [] \<or> e = ''.'' then cur else if e = ''..'' then butlast cur else cur @ [e])"
    by simp_all
  from x f have Lc: "L \<noteq> cur" unfolding xdir_def by auto
  have "e \<noteq> ''..''"
  proof
    assume dd: "e = ''..''"
    with L have Lb: "L = butlast cur" by simp
    with Lc have "cur \<noteq> []" by auto
    then obtain M k where cur: "cur = M @ [k]" by (cases cur rule: rev_cases) auto
    from x cur have "stat_at root (M @ [k]) \<noteq> None" unfolding xdir_def by auto
    from parent_is_dir [OF this] Lb cur f show False by auto
  qed
  with L Lc have plain: "e \<noteq> []" "e \<noteq> ''.''" "e \<noteq> ''..''" and L': "L = cur @ [e]"
    by (auto split: if_splits)
  from plain(1) have b: "filepath_Base p = e"
    unfolding e_def by (rule Base_last_Split)
  have "e \<in> set (strings_Split p ''/'')" unfolding sp by simp
  then have "CHR ''/'' \<notin> set e" by (rule Split_elems_no_slash)
  with b plain L' show ?thesis by simp
qed

section \<open>MoveVideos: moving files into the destination\<close>

lemma stat_at_KFile_lookup:
  "stat_at root L = Some (KFile c) \<longleftrightarrow> lookup root L = Some (File c)"
proof
  assume "stat_at root L = Some (KFile c)"
  then obtain m where m: "lookup root L = Some m" "kind_of m = KFile c"
    by (auto simp: stat_at_def)
  then show "lookup root L = Some (File c)" by (cases m) auto
qed (simp add: stat_at_def)

lemma stat_at_File: "stat_at (File c) M = (if M = [] then Some (KFile c) else None)"
  by (cases M) (simp_all add: stat_at_Cons)

lemma dir_writable_KDir: "dir_writable root L \<Longrightarrow> \<exists>r x. stat_at root L = Some (KDir r True x)"
  by (auto simp: dir_writable_def split: option.splits kind.splits)

lemma os_Rename_file:
  assumes ren: "os_Rename f oldpath newpath = Inr f'"
    and old: "resolve f oldpath = Inr Lo" "stat_at f Lo = Some (KFile c)"
    and new: "resolve f newpath = Inr Ln"
    and ne: "Lo \<noteq> Ln"
  shows "Lo \<noteq> [] \<and> Ln \<noteq> [] \<and> dir_writable f (butlast Lo) \<and> dir_writable f (butlast Ln) \<and>
         f' = put Ln (Some (File c)) (put Lo None f)"
proof -
  from old(2) have l: "lookup f Lo = Some (File c)" by (simp add: stat_at_KFile_lookup)
  from ren old(1) new l ne show ?thesis
    unfolding os_Rename_def
    by (simp split: if_splits option.splits kind.splits)
qed

text \<open>
  Renaming a file to its base name in a directory that holds files only: the file
  appears there, it is gone from its old place, and nothing else changes.
\<close>

lemma rename_file_into:
  assumes ren: "os_Rename f p (filepath_Join [out, filepath_Base p]) = Inr f'"
    and src: "resolve f p = Inr Lp" "stat_at f Lp = Some (KFile c)"
    and out: "out \<noteq> []" "namei f [] (strings_Split out ''/'') = Inr D" "xdir f D"
    and kids: "\<forall>k. stat_at f (D @ [k]) = None \<or> (\<exists>c'. stat_at f (D @ [k]) = Some (KFile c'))"
    and notin: "\<forall>k. Lp \<noteq> D @ [k]"
  shows "stat_at f' M =
     (if M = D @ [filepath_Base p] then Some (KFile c)
      else if M = Lp then None else stat_at f M)"
proof -
  let ?b = "filepath_Base p"
  let ?Ln = "D @ [?b]"
  from file_path_base [OF src] have Lp: "Lp \<noteq> []" and b: "?b \<noteq> []" "?b \<noteq> ''.''" "?b \<noteq> ''..''"
      "CHR ''/'' \<notin> set ?b"
    by blast+
  have new: "resolve f (filepath_Join [out, ?b]) = Inr ?Ln"
    using out b by (rule resolve_Join)
  from notin have ne: "Lp \<noteq> ?Ln" by blast
  from os_Rename_file [OF ren src new ne]
  have wo: "dir_writable f (butlast Lp)" and wn: "dir_writable f (butlast ?Ln)"
    and f': "f' = put ?Ln (Some (File c)) (put Lp None f)"
    by simp_all
  from dir_writable_KDir [OF wo] obtain r x where po: "stat_at f (butlast Lp) = Some (KDir r True x)"
    by blast
  from dir_writable_KDir [OF wn] obtain r' x' where pn: "stat_at f D = Some (KDir r' True x')"
    by auto
  let ?f0 = "put Lp None f"
  have f0: "stat_at ?f0 N = (if N = Lp then None else stat_at f N)" for N
  proof (cases "prefix Lp N")
    case True
    then obtain N' where N: "N = Lp @ N'" by (auto simp: prefix_def)
    show ?thesis
    proof (cases "N' = []")
      case True
      with N show ?thesis by (simp add: stat_at_put [OF Lp po])
    next
      case False
      with N stat_at_below_file [OF src(2) False] show ?thesis
        by (simp add: stat_at_put [OF Lp po])
    qed
  next
    case False
    then have "N \<noteq> Lp" by auto
    with False show ?thesis by (simp add: stat_at_put [OF Lp po])
  qed
  from src(2) pn have "D \<noteq> Lp" by auto
  with f0 [of D] pn have pn0: "stat_at ?f0 (butlast ?Ln) = Some (KDir r' True x')" by simp
  have Ln: "?Ln \<noteq> []" by simp
  show ?thesis
  proof (cases "prefix ?Ln M")
    case True
    then obtain N' where M: "M = ?Ln @ N'" by (auto simp: prefix_def)
    show ?thesis
    proof (cases "N' = []")
      case True
      with M show ?thesis unfolding f' by (simp add: stat_at_put [OF Ln pn0] stat_at_File)
    next
      case False
      from kids have "stat_at f ?Ln = None \<or> (\<exists>c'. stat_at f ?Ln = Some (KFile c'))"
        by blast
      then have "stat_at f (?Ln @ N') = None"
      proof
        assume "stat_at f ?Ln = None"
        then show ?thesis by (rule stat_at_below_missing)
      next
        assume "\<exists>c'. stat_at f ?Ln = Some (KFile c')"
        then obtain c' where "stat_at f ?Ln = Some (KFile c')" by blast
        from stat_at_below_file [OF this False] show ?thesis .
      qed
      with M False f0 [of M] show ?thesis
        unfolding f' by (simp add: stat_at_put [OF Ln pn0] stat_at_File)
    qed
  next
    case False
    then have "M \<noteq> ?Ln" by auto
    with False f0 [of M] show ?thesis
      unfolding f' by (simp add: stat_at_put [OF Ln pn0])
  qed
qed

lemma os_Rename_source_exists:
  "os_Rename f oldpath newpath = Inr f' \<Longrightarrow> resolve f oldpath = Inr Lo \<Longrightarrow> stat_at f Lo \<noteq> None"
  unfolding os_Rename_def stat_at_def by (auto split: option.splits)

lemma moved_view_step:
  assumes step: "\<And>M. stat_at f2 M =
        (if M = D @ [filepath_Base p] then Some (KFile (cont p))
         else if M = src p then None else stat_at f M)"
    and inv: "\<And>M. stat_at f M = moved_view f1 D src cont done M"
    and notin: "\<forall>k. src p \<noteq> D @ [k]"
  shows "stat_at f2 M = moved_view f1 D src cont (done @ [p]) M"
proof (cases "M = D @ [filepath_Base p]")
  case True
  then show ?thesis by (simp add: step moved_view_def)
next
  case False
  note nb = this
  show ?thesis
  proof (cases "M = src p")
    case True
    with notin have "\<not> (\<exists>q \<in> set (done @ [p]). M = D @ [filepath_Base q])" by auto
    with True nb show ?thesis by (simp add: step moved_view_def)
  next
    case False
    from nb have "filter (\<lambda>q. D @ [filepath_Base q] = M) (done @ [p]) =
        filter (\<lambda>q. D @ [filepath_Base q] = M) done"
      by auto
    moreover from nb have "(\<exists>q \<in> set (done @ [p]). M = D @ [filepath_Base q]) \<longleftrightarrow>
        (\<exists>q \<in> set done. M = D @ [filepath_Base q])"
      by auto
    moreover from False have "(\<exists>q \<in> set (done @ [p]). M = src q) \<longleftrightarrow> (\<exists>q \<in> set done. M = src q)"
      by auto
    ultimately have "moved_view f1 D src cont (done @ [p]) M = moved_view f1 D src cont done M"
      unfolding moved_view_def by (simp only:)
    with nb False show ?thesis by (simp add: step inv)
  qed
qed

text \<open>The loop keeps the view \<open>moved_view\<close>.\<close>

lemma moved_invariant:
  assumes "moved out ps f = Some f'"
    and "out \<noteq> []"
    and "namei f1 [] (strings_Split out ''/'') = Inr D"
    and "xdir f1 D"
    and "\<forall>k. stat_at f1 (D @ [k]) = None"
    and "\<forall>q \<in> set done \<union> set ps.
           resolve f1 q = Inr (src q) \<and> stat_at f1 (src q) = Some (KFile (cont q))"
    and "\<forall>M. stat_at f M = moved_view f1 D src cont done M"
  shows "\<forall>M. stat_at f' M = moved_view f1 D src cont (done @ ps) M"
  using assms
proof (induction ps arbitrary: f "done")
  case Nil
  then show ?case by simp
next
  case (Cons p ps)
  note out = Cons.prems(2) and D = Cons.prems(3) and xD = Cons.prems(4)
    and empty = Cons.prems(5) and srcs = Cons.prems(6) and inv = Cons.prems(7)
  from Cons.prems(1) obtain f2 where
    ren: "os_Rename f p (filepath_Join [out, filepath_Base p]) = Inr f2"
    and rest: "moved out ps f2 = Some f'"
    by (auto split: sum.splits)
  have src_file: "resolve f1 q = Inr (src q)" "stat_at f1 (src q) = Some (KFile (cont q))"
    if "q \<in> set done \<union> set (p # ps)" for q
    using srcs that by blast+
  have not_child: "src q \<noteq> D @ [k]" if "q \<in> set done \<union> set (p # ps)" for q k
    using src_file(2) [OF that] empty by (metis option.distinct(1))
  have keep: "xdir f M" if "xdir f1 M" for M
  proof -
    from that obtain r w where k: "stat_at f1 M = Some (KDir r w True)"
      unfolding xdir_def by blast
    with empty have a: "\<not> (\<exists>q \<in> set done. M = D @ [filepath_Base q])" by auto
    from k src_file(2) have b: "\<not> (\<exists>q \<in> set done. M = src q)" by auto
    from a b k inv show ?thesis unfolding xdir_def moved_view_def by simp
  qed
  have p: "resolve f1 p = Inr (src p)" "stat_at f1 (src p) = Some (KFile (cont p))"
    using src_file [of p] by simp_all
  from p(1) have ne: "p \<noteq> []" and n1: "namei f1 [] (strings_Split p ''/'') = Inr (src p)"
    by (auto simp: resolve_def split: if_splits)
  from namei_mono [OF n1] keep ne have rp: "resolve f p = Inr (src p)"
    by (simp add: resolve_def)
  from os_Rename_source_exists [OF ren rp] have ex: "stat_at f (src p) \<noteq> None" .
  have pn: "\<not> (\<exists>q \<in> set done. src p = D @ [filepath_Base q])"
    using not_child [of p] by auto
  have fresh: "\<not> (\<exists>q \<in> set done. src p = src q)"
  proof
    assume "\<exists>q \<in> set done. src p = src q"
    with pn have "moved_view f1 D src cont done (src p) = None"
      unfolding moved_view_def by simp
    with inv ex show False by simp
  qed
  with pn inv p(2) have sp: "stat_at f (src p) = Some (KFile (cont p))"
    unfolding moved_view_def by simp
  from namei_mono [OF D] keep have Df: "namei f [] (strings_Split out ''/'') = Inr D" by blast
  from keep [OF xD] have xDf: "xdir f D" .
  have kids: "\<forall>k. stat_at f (D @ [k]) = None \<or> (\<exists>c'. stat_at f (D @ [k]) = Some (KFile c'))"
    using inv empty unfolding moved_view_def by auto
  from not_child [of p] have notin: "\<forall>k. src p \<noteq> D @ [k]" by simp
  note step = rename_file_into [OF ren rp sp out Df xDf kids notin]
  have inv2: "\<forall>M. stat_at f2 M = moved_view f1 D src cont (done @ [p]) M"
    using moved_view_step [of f2 D p cont src f f1 "done"] step inv notin by blast
  have srcs2: "\<forall>q \<in> set (done @ [p]) \<union> set ps.
      resolve f1 q = Inr (src q) \<and> stat_at f1 (src q) = Some (KFile (cont q))"
    using srcs by auto
  from Cons.IH [OF rest out D xD empty srcs2 inv2] show ?case by simp
qed

lemma os_Stat_file:
  "os_Stat root p = Inr (KFile c) \<Longrightarrow>
   resolve root p = Inr (place root p) \<and> stat_at root (place root p) = Some (KFile c) \<and>
   content root p = c"
  by (auto simp: os_Stat_def place_def content_def split: sum.splits option.splits)

lemma namei_replicate_empty:
  "xdir root cur \<Longrightarrow> namei root cur (replicate n []) = Inr cur"
  by (induction n) (auto simp: xdir_def)

lemma outputDir_of_not_Nil: "first \<noteq> [] \<Longrightarrow> outputDir_of first \<noteq> []"
  using genSplit_dot_Join [of "[]" first]
  by (simp add: outputDir_of_def strings_Split_def)

text \<open>The state in which the loop of MoveVideos starts, and the state it ends in.\<close>

lemma moved_all_view:
  assumes files: "\<forall>p \<in> set paths. \<exists>c. os_Stat f0 p = Inr (KFile c)"
    and first: "first \<in> set paths"
    and mk: "os_Mkdir f0 (outputDir_of first) = Inr f1"
    and mv: "moved (outputDir_of first) paths f1 = Some fn"
  shows "\<exists>D. namei f1 [] (strings_Split (outputDir_of first) ''/'') = Inr D \<and>
           stat_at f0 D = None \<and> stat_at f1 D = Some (KDir True True True) \<and>
           (\<forall>k. stat_at f1 (D @ [k]) = None) \<and>
           (\<forall>M. xdir f1 M \<longrightarrow> xdir fn M) \<and>
           (\<forall>M. stat_at fn M = moved_view f1 D (place f0) (content f0) paths M) \<and>
           (\<forall>p \<in> set paths. resolve f1 p = Inr (place f0 p) \<and>
              stat_at f1 (place f0 p) = Some (KFile (content f0 p)))"
proof -
  let ?out = "outputDir_of first"
  from os_Mkdir_effect [OF mk] obtain D r x where
    D0: "namei f0 [] (elems_stripped ?out) = Inr D" and Dne: "D \<noteq> []"
    and Dnew: "stat_at f0 D = None"
    and f1: "\<And>M. stat_at f1 M = (if M = D then Some (KDir True True True) else stat_at f0 M)"
    by blast
  have up: "xdir f1 M" if "xdir f0 M" for M
    using that Dnew f1 [of M] unfolding xdir_def by auto
  have xD: "xdir f1 D" using f1 [of D] unfolding xdir_def by auto
  from split_stripped obtain n
    where sp: "strings_Split ?out ''/'' = elems_stripped ?out @ replicate n []" ..
  from namei_mono [OF D0] up have "namei f1 [] (elems_stripped ?out) = Inr D" by blast
  then have D1: "namei f1 [] (strings_Split ?out ''/'') = Inr D"
    unfolding sp namei_append by (simp add: namei_replicate_empty [OF xD])
  have empty: "\<forall>k. stat_at f1 (D @ [k]) = None"
    using f1 stat_at_below_missing [OF Dnew] by simp
  have src: "resolve f1 p = Inr (place f0 p) \<and> stat_at f1 (place f0 p) = Some (KFile (content f0 p))"
    if "p \<in> set paths" for p
  proof -
    from files that obtain c where "os_Stat f0 p = Inr (KFile c)" by blast
    from os_Stat_file [OF this] have r: "resolve f0 p = Inr (place f0 p)"
      and s: "stat_at f0 (place f0 p) = Some (KFile (content f0 p))"
      by simp_all
    from r have ne: "p \<noteq> []" and n: "namei f0 [] (strings_Split p ''/'') = Inr (place f0 p)"
      by (auto simp: resolve_def split: if_splits)
    from namei_mono [OF n] up ne have "resolve f1 p = Inr (place f0 p)"
      by (simp add: resolve_def)
    moreover from s Dnew have "place f0 p \<noteq> D" by auto
    with s f1 have "stat_at f1 (place f0 p) = Some (KFile (content f0 p))" by simp
    ultimately show ?thesis by simp
  qed
  from src [OF first] have "first \<noteq> []" by (auto simp: resolve_def split: if_splits)
  then have out: "?out \<noteq> []" by (rule outputDir_of_not_Nil)
  have srcs: "\<forall>q \<in> set [] \<union> set paths.
      resolve f1 q = Inr (place f0 q) \<and> stat_at f1 (place f0 q) = Some (KFile (content f0 q))"
    using src by simp
  have inv0: "\<forall>M. stat_at f1 M = moved_view f1 D (place f0) (content f0) [] M"
    by (simp add: moved_view_def)
  from moved_invariant [OF mv out D1 xD empty srcs inv0]
  have view: "\<forall>M. stat_at fn M = moved_view f1 D (place f0) (content f0) paths M" by simp
  have keep: "xdir fn M" if "xdir f1 M" for M
  proof -
    from that obtain r w where k: "stat_at f1 M = Some (KDir r w True)"
      unfolding xdir_def by blast
    with empty have a: "\<not> (\<exists>q \<in> set paths. M = D @ [filepath_Base q])" by auto
    from k src have b: "\<not> (\<exists>q \<in> set paths. M = place f0 q)" by auto
    from a b k view show ?thesis unfolding xdir_def moved_view_def by simp
  qed
  from D1 Dnew f1 [of D] empty keep view src show ?thesis by auto
qed

lemma MoveVideos_all_moved:
  assumes mk: "os_Mkdir (fs w) (outputDir_of first) = Inr fs1"
    and mv: "moved (outputDir_of first) (first # others) fs1 = Some fsn"
  shows "MoveVideos (first # others) w =
     (None,
      \<lparr>fs = fsn,
       events = events w @
         [Status_Received (length (first # others)), Status_Target (outputDir_of first),
          Status_DirCreated, Status_Starting] @
         map (\<lambda>q. Status_Moving (filepath_Base q)) (first # others) @
         [MoveComplete (length (first # others)) (outputDir_of first)]\<rparr>)"
proof -
  let ?out = "outputDir_of first"
  let ?w3 = "\<lparr>fs = fs1, events = events w @ [Status_Received (Suc (length others)),
       Status_Target ?out, Status_DirCreated, Status_Starting]\<rparr>"
  from mv have "moved ?out (first # others) (fs ?w3) = Some fsn" by simp
  from moveEach_prefix [OF this, of "[]" 0]
  have "moveEach ?out (first # others) 0 ?w3 =
      (Inr (length (first # others)),
       \<lparr>fs = fsn, events = events ?w3 @
          map (\<lambda>q. Status_Moving (filepath_Base q)) (first # others)\<rparr>)"
    by (simp del: moved.simps moveEach.simps(2))
  with MoveVideos_Mkdir_ok [OF mk, of others] show ?thesis
    by (simp add: emit_def del: moveEach.simps)
qed

text \<open>
  C2.  Let the request be not empty, let every path of it lead to an existing
  file, let the destination directory be made, and let every rename succeed.  Then
  MoveVideos returns no error and reports, in its completion event, the number of
  files of the request and the destination path.  Afterwards the destination, which
  did not exist before, is a directory whose entries are exactly the base names of
  the requested files, and none of the source paths exists any more.
\<close>

theorem MoveVideos_moves_all:
  assumes files: "\<forall>p \<in> set (first # others). \<exists>c. os_Stat (fs w) p = Inr (KFile c)"
    and mk: "os_Mkdir (fs w) (outputDir_of first) = Inr fs1"
    and mv: "moved (outputDir_of first) (first # others) fs1 = Some fsn"
  shows "MoveVideos (first # others) w =
     (None,
      \<lparr>fs = fsn,
       events = events w @
         [Status_Received (length (first # others)), Status_Target (outputDir_of first),
          Status_DirCreated, Status_Starting] @
         map (\<lambda>q. Status_Moving (filepath_Base q)) (first # others) @
         [MoveComplete (length (first # others)) (outputDir_of first)]\<rparr>) \<and>
     (\<exists>D. resolve fsn (outputDir_of first) = Inr D \<and>
          stat_at (fs w) D = None \<and>
          stat_at fsn D = Some (KDir True True True) \<and>
          (\<forall>k. stat_at fsn (D @ [k]) \<noteq> None \<longleftrightarrow>
                k \<in> filepath_Base ` set (first # others))) \<and>
     (\<forall>p \<in> set (first # others). os_Stat fsn p = Inl ENOENT)"
proof -
  let ?out = "outputDir_of first"
  let ?paths = "first # others"
  have first: "first \<in> set ?paths" by simp
  from moved_all_view [OF files first mk mv] obtain D where
    D1: "namei fs1 [] (strings_Split ?out ''/'') = Inr D"
    and Dnew: "stat_at (fs w) D = None"
    and Ddir: "stat_at fs1 D = Some (KDir True True True)"
    and empty: "\<forall>k. stat_at fs1 (D @ [k]) = None"
    and keep: "\<forall>M. xdir fs1 M \<longrightarrow> xdir fsn M"
    and view: "\<forall>M. stat_at fsn M = moved_view fs1 D (place (fs w)) (content (fs w)) ?paths M"
    and src: "\<forall>p \<in> set ?paths. resolve fs1 p = Inr (place (fs w) p) \<and>
        stat_at fs1 (place (fs w) p) = Some (KFile (content (fs w) p))"
    by blast
  have not_child: "place (fs w) q \<noteq> D @ [k]" if "q \<in> set ?paths" for q k
    using src that empty by (metis option.distinct(1))
  from src first have "first \<noteq> []" by (auto simp: resolve_def split: if_splits)
  then have out: "?out \<noteq> []" by (rule outputDir_of_not_Nil)
  from namei_mono [OF D1 keep] out have rD: "resolve fsn ?out = Inr D"
    by (simp add: resolve_def)
  have notD: "\<not> (\<exists>q \<in> set ?paths. D = D @ [filepath_Base q])" by simp
  have "\<not> (\<exists>q \<in> set ?paths. D = place (fs w) q)"
    using src Ddir by auto
  with notD view Ddir have Dn: "stat_at fsn D = Some (KDir True True True)"
    unfolding moved_view_def by simp
  have kids: "stat_at fsn (D @ [k]) \<noteq> None \<longleftrightarrow> k \<in> filepath_Base ` set ?paths" for k
  proof (cases "\<exists>q \<in> set ?paths. k = filepath_Base q")
    case True
    with view show ?thesis unfolding moved_view_def by auto
  next
    case False
    then have a: "\<not> (\<exists>q \<in> set ?paths. D @ [k] = D @ [filepath_Base q])" by simp
    from not_child have b: "\<not> (\<exists>q \<in> set ?paths. D @ [k] = place (fs w) q)" by metis
    from a b view empty have "stat_at fsn (D @ [k]) = None"
      unfolding moved_view_def by simp
    with False show ?thesis by auto
  qed
  have gone: "os_Stat fsn p = Inl ENOENT" if "p \<in> set ?paths" for p
  proof -
    from src that have r: "resolve fs1 p = Inr (place (fs w) p)" by blast
    then have ne: "p \<noteq> []" and n: "namei fs1 [] (strings_Split p ''/'') = Inr (place (fs w) p)"
      by (auto simp: resolve_def split: if_splits)
    from namei_mono [OF n keep] ne have rn: "resolve fsn p = Inr (place (fs w) p)"
      by (simp add: resolve_def)
    from not_child [OF that]
    have a: "\<not> (\<exists>q \<in> set ?paths. place (fs w) p = D @ [filepath_Base q])" by simp
    from that have b: "\<exists>q \<in> set ?paths. place (fs w) p = place (fs w) q" by blast
    from a b view have "stat_at fsn (place (fs w) p) = None"
      unfolding moved_view_def by simp
    with rn show ?thesis by (simp add: os_Stat_def)
  qed
  from MoveVideos_all_moved [OF mk mv] rD Dnew Dn kids gone show ?thesis by blast
qed

theorem MoveVideos_moves_all_witness:
  "os_Stat fs5_all ''/v/a.m4v'' = Inr (KFile 1) \<and>
   os_Stat fs5_all ''/v/b.m4v'' = Inr (KFile 2) \<and>
   os_Stat fs5_all ''/v/c.m4v'' = Inr (KFile 3) \<and>
   os_Stat fs5_all ''/v/d.m4v'' = Inr (KFile 4) \<and>
   os_Stat fs5_all ''/v/e.m4v'' = Inr (KFile 5) \<and>
   os_Mkdir fs5_all ''/v/a_m4v'' = Inr fs5_all_made \<and>
   moved ''/v/a_m4v'' five_paths fs5_all_made = Some fs5_all_moved \<and>
   MoveVideos five_paths \<lparr>fs = fs5_all, events = []\<rparr> =
     (None,
      \<lparr>fs = fs5_all_moved,
       events = [Status_Received 5, Status_Target ''/v/a_m4v'', Status_DirCreated,
         Status_Starting, Status_Moving ''a.m4v'', Status_Moving ''b.m4v'',
         Status_Moving ''c.m4v'', Status_Moving ''d.m4v'', Status_Moving ''e.m4v'',
         MoveComplete 5 ''/v/a_m4v'']\<rparr>) \<and>
   resolve fs5_all_moved ''/v/a_m4v'' = Inr [''v'', ''a_m4v''] \<and>
   (\<forall>k. stat_at fs5_all_moved ([''v'', ''a_m4v''] @ [k]) \<noteq> None \<longleftrightarrow>
      k \<in> {''a.m4v'', ''b.m4v'', ''c.m4v'', ''d.m4v'', ''e.m4v''}) \<and>
   os_Stat fs5_all_moved ''/v/a.m4v'' = Inl ENOENT \<and>
   os_Stat fs5_all_moved ''/v/b.m4v'' = Inl ENOENT \<and>
   os_Stat fs5_all_moved ''/v/c.m4v'' = Inl ENOENT \<and>
   os_Stat fs5_all_moved ''/v/d.m4v'' = Inl ENOENT \<and>
   os_Stat fs5_all_moved ''/v/e.m4v'' = Inl ENOENT"
proof -
  let ?others = "[''/v/b.m4v'', ''/v/c.m4v'', ''/v/d.m4v'', ''/v/e.m4v'']"
  let ?w = "\<lparr>fs = fs5_all, events = []\<rparr>"
  have p: "five_paths = ''/v/a.m4v'' # ?others" by (simp add: five_paths_def)
  have o: "outputDir_of ''/v/a.m4v'' = ''/v/a_m4v''" by code_simp
  have s: "os_Stat fs5_all ''/v/a.m4v'' = Inr (KFile 1)" "os_Stat fs5_all ''/v/b.m4v'' = Inr (KFile 2)"
      "os_Stat fs5_all ''/v/c.m4v'' = Inr (KFile 3)" "os_Stat fs5_all ''/v/d.m4v'' = Inr (KFile 4)"
      "os_Stat fs5_all ''/v/e.m4v'' = Inr (KFile 5)"
    by code_simp+
  then have h1: "\<forall>p \<in> set (''/v/a.m4v'' # ?others). \<exists>c. os_Stat (fs ?w) p = Inr (KFile c)"
    by simp
  have h2: "os_Mkdir (fs ?w) (outputDir_of ''/v/a.m4v'') = Inr fs5_all_made"
    unfolding o by code_simp
  have h3: "moved (outputDir_of ''/v/a.m4v'') (''/v/a.m4v'' # ?others) fs5_all_made =
      Some fs5_all_moved"
    unfolding o by code_simp
  have b: "filepath_Base ''/v/a.m4v'' = ''a.m4v''" "filepath_Base ''/v/b.m4v'' = ''b.m4v''"
      "filepath_Base ''/v/c.m4v'' = ''c.m4v''" "filepath_Base ''/v/d.m4v'' = ''d.m4v''"
      "filepath_Base ''/v/e.m4v'' = ''e.m4v''"
    by code_simp+
  have r: "resolve fs5_all_moved ''/v/a_m4v'' = Inr [''v'', ''a_m4v'']" by code_simp
  note t = MoveVideos_moves_all [OF h1 h2 h3, unfolded o]
  from t have mv: "MoveVideos five_paths ?w =
     (None,
      \<lparr>fs = fs5_all_moved,
       events = [Status_Received 5, Status_Target ''/v/a_m4v'', Status_DirCreated,
         Status_Starting, Status_Moving ''a.m4v'', Status_Moving ''b.m4v'',
         Status_Moving ''c.m4v'', Status_Moving ''d.m4v'', Status_Moving ''e.m4v'',
         MoveComplete 5 ''/v/a_m4v'']\<rparr>)"
    unfolding p by (simp add: b)
  from t r have kids: "\<forall>k. stat_at fs5_all_moved ([''v'', ''a_m4v''] @ [k]) \<noteq> None \<longleftrightarrow>
      k \<in> {''a.m4v'', ''b.m4v'', ''c.m4v'', ''d.m4v'', ''e.m4v''}"
    by (simp add: b)
  from t have "\<forall>p \<in> set five_paths. os_Stat fs5_all_moved p = Inl ENOENT"
    unfolding p by blast
  then have gone: "os_Stat fs5_all_moved ''/v/a.m4v'' = Inl ENOENT"
      "os_Stat fs5_all_moved ''/v/b.m4v'' = Inl ENOENT"
      "os_Stat fs5_all_moved ''/v/c.m4v'' = Inl ENOENT"
      "os_Stat fs5_all_moved ''/v/d.m4v'' = Inl ENOENT"
      "os_Stat fs5_all_moved ''/v/e.m4v'' = Inl ENOENT"
    by (simp_all add: five_paths_def)
  from s h2 h3 mv r kids gone show ?thesis
    unfolding p o by simp
qed

text \<open>
  C10.  Under the same assumptions: paths with equal base names get the same
  destination path; MoveVideos returns no error and its last event reports the full
  length of the request; and what is found afterwards at the destination path of a
  file is the file that was last in the request among those of the same base name.
  So of two files with equal base names the second replaces the first in the
  destination.
\<close>

theorem MoveVideos_equal_basenames:
  assumes files: "\<forall>p \<in> set (first # others). \<exists>c. os_Stat (fs w) p = Inr (KFile c)"
    and mk: "os_Mkdir (fs w) (outputDir_of first) = Inr fs1"
    and mv: "moved (outputDir_of first) (first # others) fs1 = Some fsn"
  shows "(\<forall>p q. filepath_Base p = filepath_Base q \<longrightarrow>
            filepath_Join [outputDir_of first, filepath_Base p] =
            filepath_Join [outputDir_of first, filepath_Base q]) \<and>
         fst (MoveVideos (first # others) w) = None \<and>
         fs (snd (MoveVideos (first # others) w)) = fsn \<and>
         last (events (snd (MoveVideos (first # others) w))) =
           MoveComplete (length (first # others)) (outputDir_of first) \<and>
         (\<forall>p \<in> set (first # others).
            os_Stat fsn (filepath_Join [outputDir_of first, filepath_Base p]) =
            os_Stat (fs w)
              (last (filter (\<lambda>q. filepath_Base q = filepath_Base p) (first # others))))"
proof -
  let ?out = "outputDir_of first"
  let ?paths = "first # others"
  have first: "first \<in> set ?paths" by simp
  from moved_all_view [OF files first mk mv] obtain D where
    D1: "namei fs1 [] (strings_Split ?out ''/'') = Inr D"
    and Ddir: "stat_at fs1 D = Some (KDir True True True)"
    and keep: "\<forall>M. xdir fs1 M \<longrightarrow> xdir fsn M"
    and view: "\<forall>M. stat_at fsn M = moved_view fs1 D (place (fs w)) (content (fs w)) ?paths M"
    and src: "\<forall>p \<in> set ?paths. resolve fs1 p = Inr (place (fs w) p) \<and>
        stat_at fs1 (place (fs w) p) = Some (KFile (content (fs w) p))"
    by blast
  from src first have "first \<noteq> []" by (auto simp: resolve_def split: if_splits)
  then have out: "?out \<noteq> []" by (rule outputDir_of_not_Nil)
  from namei_mono [OF D1 keep] have Dn: "namei fsn [] (strings_Split ?out ''/'') = Inr D" .
  from Ddir have "xdir fs1 D" unfolding xdir_def by auto
  with keep have xD: "xdir fsn D" by blast
  have dest: "os_Stat fsn (filepath_Join [?out, filepath_Base p]) =
      os_Stat (fs w) (last (filter (\<lambda>q. filepath_Base q = filepath_Base p) ?paths))"
    if p: "p \<in> set ?paths" for p
  proof -
    let ?same = "filter (\<lambda>q. filepath_Base q = filepath_Base p) ?paths"
    from src p have "resolve fs1 p = Inr (place (fs w) p)"
      "stat_at fs1 (place (fs w) p) = Some (KFile (content (fs w) p))"
      by blast+
    from file_path_base [OF this] have b: "filepath_Base p \<noteq> []" "filepath_Base p \<noteq> ''.''"
        "filepath_Base p \<noteq> ''..''" "CHR ''/'' \<notin> set (filepath_Base p)"
      by blast+
    have r: "resolve fsn (filepath_Join [?out, filepath_Base p]) = Inr (D @ [filepath_Base p])"
      using out Dn xD b by (rule resolve_Join)
    have "p \<in> set ?same" unfolding set_filter using p by blast
    then have "?same \<noteq> []" by auto
    then have "last ?same \<in> set ?same" by (rule last_in_set)
    then have l: "last ?same \<in> set ?paths" by (metis filter_is_subset subsetD)
    with files obtain c where c: "os_Stat (fs w) (last ?same) = Inr (KFile c)" by blast
    from os_Stat_file [OF c] have cc: "content (fs w) (last ?same) = c" by simp
    have "(\<lambda>q. D @ [filepath_Base q] = D @ [filepath_Base p]) =
        (\<lambda>q. filepath_Base q = filepath_Base p)"
      by auto
    with view p cc have "stat_at fsn (D @ [filepath_Base p]) = Some (KFile c)"
      unfolding moved_view_def by auto
    with r c show ?thesis by (simp add: os_Stat_def)
  qed
  from MoveVideos_all_moved [OF mk mv] dest show ?thesis by simp
qed

theorem MoveVideos_equal_basenames_witness:
  "os_Mkdir fs_twins ''/a/x_m4v'' = Inr fs_twins_made \<and>
   moved ''/a/x_m4v'' [''/a/x.m4v'', ''/b/x.m4v''] fs_twins_made = Some fs_twins_moved \<and>
   filepath_Base ''/a/x.m4v'' = filepath_Base ''/b/x.m4v'' \<and>
   filepath_Join [''/a/x_m4v'', filepath_Base ''/a/x.m4v''] = ''/a/x_m4v/x.m4v'' \<and>
   filepath_Join [''/a/x_m4v'', filepath_Base ''/b/x.m4v''] = ''/a/x_m4v/x.m4v'' \<and>
   MoveVideos [''/a/x.m4v'', ''/b/x.m4v''] \<lparr>fs = fs_twins, events = []\<rparr> =
     (None,
      \<lparr>fs = fs_twins_moved,
       events = [Status_Received 2, Status_Target ''/a/x_m4v'', Status_DirCreated,
         Status_Starting, Status_Moving ''x.m4v'', Status_Moving ''x.m4v'',
         MoveComplete 2 ''/a/x_m4v'']\<rparr>) \<and>
   os_Stat fs_twins ''/a/x.m4v'' = Inr (KFile 1) \<and>
   os_Stat fs_twins ''/b/x.m4v'' = Inr (KFile 2) \<and>
   os_Stat fs_twins_moved ''/a/x_m4v/x.m4v'' = Inr (KFile 2) \<and>
   os_Stat fs_twins_moved ''/a/x.m4v'' = Inl ENOENT \<and>
   os_Stat fs_twins_moved ''/b/x.m4v'' = Inl ENOENT"
proof -
  let ?w = "\<lparr>fs = fs_twins, events = []\<rparr>"
  have o: "outputDir_of ''/a/x.m4v'' = ''/a/x_m4v''" by code_simp
  have s: "os_Stat fs_twins ''/a/x.m4v'' = Inr (KFile 1)"
      "os_Stat fs_twins ''/b/x.m4v'' = Inr (KFile 2)"
    by code_simp+
  then have h1: "\<forall>p \<in> set (''/a/x.m4v'' # [''/b/x.m4v'']). \<exists>c. os_Stat (fs ?w) p = Inr (KFile c)"
    by simp
  have h2: "os_Mkdir (fs ?w) (outputDir_of ''/a/x.m4v'') = Inr fs_twins_made"
    unfolding o by code_simp
  have h3: "moved (outputDir_of ''/a/x.m4v'') (''/a/x.m4v'' # [''/b/x.m4v'']) fs_twins_made =
      Some fs_twins_moved"
    unfolding o by code_simp
  have b: "filepath_Base ''/a/x.m4v'' = ''x.m4v''" "filepath_Base ''/b/x.m4v'' = ''x.m4v''"
    by code_simp+
  have j: "filepath_Join [''/a/x_m4v'', ''x.m4v''] = ''/a/x_m4v/x.m4v''" by code_simp
  have mv: "MoveVideos [''/a/x.m4v'', ''/b/x.m4v''] ?w =
     (None,
      \<lparr>fs = fs_twins_moved,
       events = [Status_Received 2, Status_Target ''/a/x_m4v'', Status_DirCreated,
         Status_Starting, Status_Moving ''x.m4v'', Status_Moving ''x.m4v'',
         MoveComplete 2 ''/a/x_m4v'']\<rparr>)"
    by code_simp
  note t = MoveVideos_equal_basenames [OF h1 h2 h3, unfolded o]
  from t have "os_Stat fs_twins_moved (filepath_Join [''/a/x_m4v'', filepath_Base ''/a/x.m4v'']) =
      os_Stat (fs ?w) (last (filter (\<lambda>q. filepath_Base q = filepath_Base ''/a/x.m4v'')
        [''/a/x.m4v'', ''/b/x.m4v'']))"
    by simp
  then have d: "os_Stat fs_twins_moved ''/a/x_m4v/x.m4v'' = Inr (KFile 2)"
    by (simp add: b j s del: filepath_Join.simps)
  have g: "os_Stat fs_twins_moved ''/a/x.m4v'' = Inl ENOENT"
      "os_Stat fs_twins_moved ''/b/x.m4v'' = Inl ENOENT"
    by code_simp+
  from h2 h3 b j mv s d g show ?thesis
    unfolding o by (simp del: filepath_Join.simps)
qed

section \<open>The destination rules and the older variant\<close>

text \<open>
  The three rules on one path: the rule of app.go, the rule of the older variant
  and the rule of the comment in app.go.
\<close>

lemma destination_rules_example:
  "outputDir_of ''/videos/clips/a.m4v'' = ''/videos/clips/a_m4v'' \<and>
   outputDir_older ''/videos/clips/a.m4v'' = ''/videos/a'' \<and>
   outputDir_commented ''/videos/clips/a.m4v'' = ''/videos/clips/a''"
  by code_simp

text \<open>
  Where \<^verbatim>\<open>os.Mkdir\<close> fails for want of the parent, \<^verbatim>\<open>os.MkdirAll\<close> makes
  the parent too.
\<close>

lemma MkdirAll_makes_parent_example:
  "os_Mkdir fs_dotted ''/x_y/a_m4v'' = Inl ENOENT \<and>
   os_MkdirAll fs_dotted ''/x_y/a_m4v'' =
     Inr (Dir True True True
       [(''x.y'', Dir True True True [(''a.m4v'', File 1)]),
        (''x_y'', Dir True True True [(''a_m4v'', Dir True True True [])])])"
  by code_simp

text \<open>The older variant on the same request: the folder is made beside the directory of the file.\<close>

lemma MoveVideos_older_example:
  "MoveVideos_older [''/x.y/a.m4v''] \<lparr>fs = fs_dotted, events = []\<rparr> =
     (None,
      \<lparr>fs = Dir True True True
         [(''x.y'', Dir True True True []),
          (''a'', Dir True True True [(''a.m4v'', File 1)])],
       events = [Status_Received 1, Status_Target ''/a'', Status_DirCreated, Status_Starting,
         Status_Moving ''a.m4v'', MoveComplete 1 ''/a'']\<rparr>)"
  by code_simp

end
